theory Spec2Isabelle
  imports Main "HOL-Library.Word"
begin

unbundle bit_operations_syntax

section \<open>The constants of player.c\<close>

definition DTY_MAX :: nat where "DTY_MAX = 36"
definition CYC_MAX :: nat where "CYC_MAX = 46"
definition GEN_MAX :: nat where "GEN_MAX = 43"
definition GEN_END :: nat where "GEN_END = 5"
definition GEN_NUM :: nat where "GEN_NUM = 5"
definition SET_NUM :: nat where "SET_NUM = 2"
definition RW_SKEW :: nat where "RW_SKEW = 4"

definition SPKR_PTR :: nat where "SPKR_PTR = 0xFA"
definition VISU_PTR :: nat where "VISU_PTR = 0xFC"
definition RING_BUF :: nat where "RING_BUF = 0x0100"
definition PLAY_BUF :: nat where "PLAY_BUF = 0x4000"
definition VISU_BUF :: nat where "VISU_BUF = 0x10D8"
definition MOCK_BUF :: nat where "MOCK_BUF = 0xDF00"
definition LEAVE :: nat where "LEAVE = 0xD400"

definition HIRES_186 :: nat where "HIRES_186 = 0x2BD0"
definition HIRES_187 :: nat where "HIRES_187 = 0x2FD0"
definition HIRES_188 :: nat where "HIRES_188 = 0x33D0"
definition HIRES_189 :: nat where "HIRES_189 = 0x37D0"
definition HIRES_190 :: nat where "HIRES_190 = 0x3BD0"
definition HIRES_191 :: nat where "HIRES_191 = 0x3FD0"

definition HIGH :: nat where "HIGH = 0xC085"
definition LOW :: nat where "LOW = 0xC086"
definition DATA :: nat where "DATA = 0xC087"

text \<open>
  \<^verbatim>\<open>LO(addr)\<close> and \<^verbatim>\<open>HI(addr)\<close>: the address is cast to \<^verbatim>\<open>uint16_t\<close>, the result
  to \<^verbatim>\<open>uint8_t\<close>. Addresses are natural numbers; the two casts are written out.
\<close>

definition LO :: "nat \<Rightarrow> 8 word" where
  "LO addr = of_nat (addr mod 65536 mod 256)"

definition HI :: "nat \<Rightarrow> 8 word" where
  "HI addr = of_nat (addr mod 65536 div 256 mod 256)"

section \<open>Instruction descriptors\<close>

text \<open>
  \<^verbatim>\<open>struct ins\<close>: five opcode bytes (an initialiser shorter than five is padded with
  zeroes, as C does), the byte length, the cycle count and the Ethernet flag.
\<close>

record ins =
  opc :: "8 word list"
  len :: nat
  cyc :: nat
  eth :: bool

definition BRK :: ins where
  "BRK = \<lparr>opc = [0x00, 0, 0, 0, 0], len = 0, cyc = 0, eth = False\<rparr>"
definition NOP :: ins where
  "NOP = \<lparr>opc = [0xEA, 0, 0, 0, 0], len = 1, cyc = 2, eth = False\<rparr>"
definition TAY :: ins where
  "TAY = \<lparr>opc = [0xA8, 0, 0, 0, 0], len = 1, cyc = 2, eth = False\<rparr>"
definition INC :: ins where
  "INC = \<lparr>opc = [0x1A, 0, 0, 0, 0], len = 1, cyc = 2, eth = False\<rparr>"
definition INY :: ins where
  "INY = \<lparr>opc = [0xC8, 0, 0, 0, 0], len = 1, cyc = 2, eth = False\<rparr>"
definition PLA :: ins where
  "PLA = \<lparr>opc = [0x68, 0, 0, 0, 0], len = 1, cyc = 4, eth = False\<rparr>"
definition PLX :: ins where
  "PLX = \<lparr>opc = [0xFA, 0, 0, 0, 0], len = 1, cyc = 4, eth = False\<rparr>"
definition BRA :: "8 word \<Rightarrow> ins" where
  "BRA disp = \<lparr>opc = [0x80, disp, 0, 0, 0], len = 2, cyc = 3, eth = False\<rparr>"
definition BNE_JMP :: "nat \<Rightarrow> ins" where
  "BNE_JMP addr =
     \<lparr>opc = [0xD0, 0x03, 0x4C, LO addr, HI addr], len = 5, cyc = 3, eth = False\<rparr>"
definition BPL_JMP :: "nat \<Rightarrow> ins" where
  "BPL_JMP addr =
     \<lparr>opc = [0x10, 0x03, 0x4C, LO addr, HI addr], len = 5, cyc = 3, eth = False\<rparr>"
definition JMP :: "nat \<Rightarrow> ins" where
  "JMP addr = \<lparr>opc = [0x4C, LO addr, HI addr, 0, 0], len = 3, cyc = 3, eth = False\<rparr>"
definition AND_IM :: "8 word \<Rightarrow> ins" where
  "AND_IM b = \<lparr>opc = [0x29, b, 0, 0, 0], len = 2, cyc = 2, eth = False\<rparr>"
definition ORA_IM :: "8 word \<Rightarrow> ins" where
  "ORA_IM b = \<lparr>opc = [0x09, b, 0, 0, 0], len = 2, cyc = 2, eth = False\<rparr>"
definition LDA_IM :: "8 word \<Rightarrow> ins" where
  "LDA_IM b = \<lparr>opc = [0xA9, b, 0, 0, 0], len = 2, cyc = 2, eth = False\<rparr>"
definition LDY_IM :: "8 word \<Rightarrow> ins" where
  "LDY_IM b = \<lparr>opc = [0xA0, b, 0, 0, 0], len = 2, cyc = 2, eth = False\<rparr>"
definition STA_ZP :: "nat \<Rightarrow> ins" where
  "STA_ZP addr = \<lparr>opc = [0x85, of_nat addr, 0, 0, 0], len = 2, cyc = 3, eth = False\<rparr>"
definition LDA_A :: "nat \<Rightarrow> ins" where
  "LDA_A addr = \<lparr>opc = [0xAD, LO addr, HI addr, 0, 0], len = 3, cyc = 4, eth = False\<rparr>"
definition LDA_E :: "nat \<Rightarrow> ins" where
  "LDA_E addr = \<lparr>opc = [0xAD, LO addr, HI addr, 0, 0], len = 3, cyc = 4, eth = True\<rparr>"
definition LDY_E :: "nat \<Rightarrow> ins" where
  "LDY_E addr = \<lparr>opc = [0xAC, LO addr, HI addr, 0, 0], len = 3, cyc = 4, eth = True\<rparr>"
definition STA_A :: "nat \<Rightarrow> ins" where
  "STA_A addr = \<lparr>opc = [0x8D, LO addr, HI addr, 0, 0], len = 3, cyc = 4, eth = False\<rparr>"
definition STX_A :: "nat \<Rightarrow> ins" where
  "STX_A addr = \<lparr>opc = [0x8E, LO addr, HI addr, 0, 0], len = 3, cyc = 4, eth = False\<rparr>"
definition STA_E :: "nat \<Rightarrow> ins" where
  "STA_E addr = \<lparr>opc = [0x8D, LO addr, HI addr, 0, 0], len = 3, cyc = 4, eth = True\<rparr>"
definition STY_E :: "nat \<Rightarrow> ins" where
  "STY_E addr = \<lparr>opc = [0x8C, LO addr, HI addr, 0, 0], len = 3, cyc = 4, eth = True\<rparr>"
definition LDA_AY :: "nat \<Rightarrow> ins" where
  "LDA_AY addr =
     \<lparr>opc = [0xB9, LO addr, HI addr, 0, 0], len = 3, cyc = 4, eth = False\<rparr>"
definition STA_AY :: "nat \<Rightarrow> ins" where
  "STA_AY addr =
     \<lparr>opc = [0x99, LO addr, HI addr, 0, 0], len = 3, cyc = 5, eth = False\<rparr>"
definition LDA_I :: "nat \<Rightarrow> ins" where
  "LDA_I addr = \<lparr>opc = [0xB2, of_nat addr, 0, 0, 0], len = 2, cyc = 5, eth = False\<rparr>"
definition LDA_IY :: "nat \<Rightarrow> ins" where
  "LDA_IY addr = \<lparr>opc = [0xB1, of_nat addr, 0, 0, 0], len = 2, cyc = 5, eth = False\<rparr>"
definition STA_I :: "nat \<Rightarrow> ins" where
  "STA_I addr = \<lparr>opc = [0x92, of_nat addr, 0, 0, 0], len = 2, cyc = 5, eth = False\<rparr>"

lemmas macro_defs =
  LO_def HI_def BRK_def NOP_def TAY_def INC_def INY_def PLA_def PLX_def BRA_def
  BNE_JMP_def BPL_JMP_def JMP_def AND_IM_def ORA_IM_def LDA_IM_def LDY_IM_def STA_ZP_def
  LDA_A_def LDA_E_def LDY_E_def STA_A_def STX_A_def STA_E_def STY_E_def LDA_AY_def
  STA_AY_def LDA_I_def LDA_IY_def STA_I_def

subsection \<open>The static descriptors\<close>

text \<open>
  \<^verbatim>\<open>spkr_a\<close> is the one global descriptor that \<^verbatim>\<open>gen_player\<close> assigns to (its second
  opcode byte, for tape output); it is part of the state below and \<open>spkr_a0\<close> is its
  initialiser. The other six are never assigned.
\<close>

definition nop :: ins where "nop = NOP"
definition bra_nop :: ins where "bra_nop = BRA 0x00"
definition spkr_a0 :: ins where "spkr_a0 = STA_A 0xC030"
definition spkr_i :: ins where "spkr_i = STA_I SPKR_PTR"
definition plx :: ins where "plx = PLX"
definition stx :: ins where "stx = STX_A 0x0000"
definition jmp :: ins where "jmp = JMP 0x0000"

lemmas static_defs = nop_def bra_nop_def spkr_a0_def spkr_i_def plx_def stx_def jmp_def

subsection \<open>The task tables\<close>

text \<open>
  Every table is the C array with its \<^verbatim>\<open>BRK\<close> end marker. The tables that depend on
  the build take the flag \<open>have_eth\<close>, true when \<^verbatim>\<open>HAVE_ETH\<close> is defined.
\<close>

definition pulse_34 :: "ins list" where
  "pulse_34 = [STA_A 0xC030, NOP, NOP, STA_A 0xC030, PLX, STX_A 0x0000, BRK]"

definition prolog_1 :: "ins list" where
  "prolog_1 = [LDA_A 0xC000, BPL_JMP LEAVE, LDA_IM 0x04, STA_E HIGH, LDY_IM 0x26, STY_E LOW,
               BRK]"

definition prolog_2 :: "bool \<Rightarrow> ins list" where
  "prolog_2 have_eth =
     [LDA_E DATA] @ (if have_eth then [BNE_JMP LEAVE] else []) @
     [LDY_IM 0x28, STY_E LOW, LDA_E DATA, LDY_E DATA, BRK]"

definition prolog_3 :: "ins list" where
  "prolog_3 = [AND_IM 0x1F, ORA_IM 0x60, STA_E HIGH, STY_E LOW, LDY_IM (of_nat (RW_SKEW - 1)),
               BRK]"

definition transf_1 :: "bool \<Rightarrow> ins list" where
  "transf_1 have_eth =
     [INY, (if have_eth then LDA_E DATA else LDA_AY MOCK_BUF), STA_AY RING_BUF, INY, BRK]"

definition transf_2 :: "bool \<Rightarrow> ins list" where
  "transf_2 have_eth =
     [(if have_eth then LDA_E DATA else LDA_AY MOCK_BUF), STA_AY RING_BUF, INY,
      (if have_eth then LDA_E DATA else LDA_AY MOCK_BUF), STA_AY RING_BUF, BRK]"

definition epilog_1 :: "ins list" where
  "epilog_1 = [LDA_IM 0x04, STA_E HIGH, LDY_IM 0x28, STY_E LOW, LDA_E DATA, STY_E LOW, BRK]"

definition epilog_2 :: "ins list" where
  "epilog_2 = [INC, STA_E DATA, LDY_IM 0x01, STY_E LOW, LDA_IM 0x40, STA_E DATA, BRK]"

definition init_vis :: "ins list" where
  "init_vis = [PLA, STA_ZP (VISU_PTR + 1), LDA_I VISU_PTR, TAY, STA_AY 0xC054, LDY_IM 0x01,
               BRK]"

definition visual_1 :: "ins list" where
  "visual_1 = [LDA_IY VISU_PTR, STA_AY HIRES_186, STA_AY HIRES_187, STA_AY HIRES_188, BRK]"

definition visual_2 :: "ins list" where
  "visual_2 = [STA_AY HIRES_189, STA_AY HIRES_190, STA_AY HIRES_191, INY, BRK]"

lemmas table_defs =
  pulse_34_def prolog_1_def prolog_2_def prolog_3_def transf_1_def transf_2_def epilog_1_def
  epilog_2_def init_vis_def visual_1_def visual_2_def

text \<open>
  The ten task arrays are named, so that a pointer to one (\<^verbatim>\<open>struct ins *\<close> in
  \<^verbatim>\<open>struct flow\<close>) is its name and the arrays themselves are a store from names to
  contents, which \<^verbatim>\<open>fix_eth\<close> updates in place.
\<close>

datatype task =
  Prolog_1 | Prolog_2 | Prolog_3 | Transf_1 | Transf_2
  | Epilog_1 | Epilog_2 | Init_vis | Visual_1 | Visual_2

fun task_table :: "bool \<Rightarrow> task \<Rightarrow> ins list" where
  "task_table have_eth Prolog_1 = prolog_1"
| "task_table have_eth Prolog_2 = prolog_2 have_eth"
| "task_table have_eth Prolog_3 = prolog_3"
| "task_table have_eth Transf_1 = transf_1 have_eth"
| "task_table have_eth Transf_2 = transf_2 have_eth"
| "task_table have_eth Epilog_1 = epilog_1"
| "task_table have_eth Epilog_2 = epilog_2"
| "task_table have_eth Init_vis = init_vis"
| "task_table have_eth Visual_1 = visual_1"
| "task_table have_eth Visual_2 = visual_2"

section \<open>The flow graph\<close>

record flow =
  ins :: task
  nxt :: nat

definition flow :: "flow list list" where
  "flow =
    [[\<lparr>ins = Prolog_1, nxt = 3\<rparr>,
      \<lparr>ins = Transf_2, nxt = 2\<rparr>,
      \<lparr>ins = Transf_1, nxt = 1\<rparr>,
      \<lparr>ins = Prolog_2, nxt = 4\<rparr>,
      \<lparr>ins = Prolog_3, nxt = 2\<rparr>],
     [\<lparr>ins = Visual_1, nxt = 4\<rparr>,
      \<lparr>ins = Epilog_1, nxt = 2\<rparr>,
      \<lparr>ins = Epilog_2, nxt = 3\<rparr>,
      \<lparr>ins = Init_vis, nxt = 0\<rparr>,
      \<lparr>ins = Visual_2, nxt = 0\<rparr>]]"

section \<open>fix_eth\<close>

text \<open>
  \<^verbatim>\<open>ins->opc[0]\<close> as a loop condition: there is an instruction left before the end
  marker. An array is a list that ends with its marker; the empty list stands for a
  pointer past an array without marker, which no table of the program has, and counts
  as the end.
\<close>

fun has_ins :: "ins list \<Rightarrow> bool" where
  "has_ins [] = False"
| "has_ins (i # is) = (opc i ! 0 \<noteq> 0)"

text \<open>
  \<^verbatim>\<open>fix_eth\<close> ORs the slot offset into the second opcode byte of every descriptor with
  the Ethernet flag, in the array itself, up to the end marker.
\<close>

fun fix_eth :: "ins list \<Rightarrow> 8 word \<Rightarrow> ins list" where
  "fix_eth [] ofs = []"
| "fix_eth (i # is) ofs =
     (if opc i ! 0 \<noteq> 0
      then (if eth i then i\<lparr>opc := (opc i)[1 := opc i ! 1 OR ofs]\<rparr> else i) # fix_eth is ofs
      else i # is)"

section \<open>gen_pulse\<close>

datatype nxt = Pull | Store | Done

text \<open>
  What a generator function has placed, in order. The source keeps no such list; an
  entry is added wherever one of its branches emits an instruction, so that the order
  and the number of the placements can be stated.
\<close>

datatype placed =
  Early_end | Duty_start | Duty_end | Duty_end_stretched | Pull_sample | Store_sample
  | Work ins | Fill_bra | Fill_nop | Chain | Fixed ins

text \<open>
  The local state of \<^verbatim>\<open>gen_pulse\<close> and \<^verbatim>\<open>gen_pulse_34\<close>: the auxiliary memory written
  through \<^verbatim>\<open>ptr\<close>, the pointer itself, the cycle counter (\<^verbatim>\<open>uint8_t\<close>), the next sample
  work, the saved location of the store operand (unset until the store is placed) and the
  instructions of the task left to place.
\<close>

record pulse =
  g_mem :: "nat \<Rightarrow> 8 word"
  g_ptr :: nat
  g_cyc :: nat
  g_nxt :: nxt
  g_loc :: "nat option"
  g_ins :: "ins list"
  g_log :: "placed list"

datatype error =
  Assert_len | Assert_cyc | Assert_size | Assert_nxt | Assert_ins | Wild_loc

text \<open>\<^verbatim>\<open>write_aux(); *ptr++ = b; write_main();\<close>\<close>

definition put :: "8 word \<Rightarrow> pulse \<Rightarrow> pulse" where
  "put b st = st\<lparr>g_mem := (g_mem st)(g_ptr st := b), g_ptr := g_ptr st + 1\<rparr>"

text \<open>\<^verbatim>\<open>for (pos = 0; pos < ins->len; ++pos) *ptr++ = ins->opc[pos];\<close>\<close>

definition put_ins :: "ins \<Rightarrow> pulse \<Rightarrow> pulse" where
  "put_ins i st = fold (\<lambda>pos. put (opc i ! pos)) [0..<len i] st"

text \<open>\<^verbatim>\<open>cyc += c\<close> on the \<^verbatim>\<open>uint8_t\<close> counter.\<close>

definition add_cyc :: "nat \<Rightarrow> pulse \<Rightarrow> pulse" where
  "add_cyc c st = st\<lparr>g_cyc := (g_cyc st + c) mod 256\<rparr>"

definition mark :: "placed \<Rightarrow> pulse \<Rightarrow> pulse" where
  "mark p st = st\<lparr>g_log := g_log st @ [p]\<rparr>"

text \<open>
  The seven things the loop of \<^verbatim>\<open>gen_pulse\<close> can place, one per branch of its body:
  the normal duty end, the stretched duty end, the pull, the store (the operand is
  skipped, \<^verbatim>\<open>ptr += 2\<close>, and its location saved), the next instruction of the task,
  and the two fillers. \<^verbatim>\<open>++nxt\<close> is written out: the branch of the pull is entered with
  \<^verbatim>\<open>nxt == pull\<close>, that of the store with \<^verbatim>\<open>nxt == store\<close>.
\<close>

definition put_spkr_a :: "ins \<Rightarrow> pulse \<Rightarrow> pulse" where
  "put_spkr_a spkr_a st = put (opc spkr_a ! 2) (put (opc spkr_a ! 1) (put (opc spkr_a ! 0) st))"

definition duty_end :: "ins \<Rightarrow> pulse \<Rightarrow> pulse" where
  "duty_end spkr_a st = mark Duty_end (add_cyc (cyc spkr_a) (put_spkr_a spkr_a st))"

definition duty_end_stretched :: "pulse \<Rightarrow> pulse" where
  "duty_end_stretched st =
    mark Duty_end_stretched (add_cyc (cyc spkr_i) (put (opc spkr_i ! 1) (put (opc spkr_i ! 0) st)))"

definition pull_sample :: "pulse \<Rightarrow> pulse" where
  "pull_sample st = (mark Pull_sample (add_cyc (cyc plx) (put (opc plx ! 0) st)))\<lparr>g_nxt := Store\<rparr>"

definition store_sample :: "pulse \<Rightarrow> pulse" where
  "store_sample st =
    (let st1 = put (opc stx ! 0) st;
         st2 = st1\<lparr>g_loc := Some (g_ptr st1), g_ptr := g_ptr st1 + 2\<rparr>
     in (mark Store_sample (add_cyc (cyc stx) st2))\<lparr>g_nxt := Done\<rparr>)"

definition work :: "pulse \<Rightarrow> pulse" where
  "work st =
    (let i = hd (g_ins st)
     in (mark (Work i) (add_cyc (cyc i) (put_ins i st)))\<lparr>g_ins := tl (g_ins st)\<rparr>)"

definition fill_bra :: "pulse \<Rightarrow> pulse" where
  "fill_bra st =
    mark Fill_bra (add_cyc (cyc bra_nop) (put (opc bra_nop ! 1) (put (opc bra_nop ! 0) st)))"

definition fill_nop :: "pulse \<Rightarrow> pulse" where
  "fill_nop st = mark Fill_nop (add_cyc (cyc nop) (put (opc nop ! 0) st))"

text \<open>
  One pass through the body of the \<^verbatim>\<open>while\<close> loop of \<^verbatim>\<open>gen_pulse\<close>; every branch of
  the source ends in \<^verbatim>\<open>continue\<close>, the last one falls through to the end of the body.
  The comparisons are made on \<^verbatim>\<open>int\<close>, after promotion, and cannot wrap.
\<close>

definition pulse_step :: "ins \<Rightarrow> nat \<Rightarrow> pulse \<Rightarrow> pulse" where
  "pulse_step spkr_a dty st =
    (if g_cyc st = dty then duty_end spkr_a st
     else if g_cyc st + 1 = dty then duty_end_stretched st
     else if g_nxt st = Pull \<and> (g_cyc st + cyc plx \<le> dty \<or> g_cyc st > dty) then
       pull_sample st
     else if g_nxt st = Store \<and> (g_cyc st + cyc stx \<le> dty \<or> g_cyc st > dty) then
       store_sample st
     else if has_ins (g_ins st) \<and>
             (g_cyc st + cyc (hd (g_ins st)) \<le> dty \<or> g_cyc st > dty) then
       work st
     else if (g_cyc st < dty \<and> (dty - g_cyc st) mod 2 \<noteq> 0) \<or>
             (g_cyc st > dty \<and> (int (g_cyc st) - int (cyc jmp)) mod 2 \<noteq> 0) then
       fill_bra st
     else fill_nop st)"

text \<open>
  The loop runs while \<^verbatim>\<open>cyc + jmp.cyc < CYC_MAX\<close>. Nothing bounds it for an arbitrary
  descriptor (a speaker access of cycle count 0 is placed for ever), so the function is
  partial: \<open>None\<close> is the loop that does not return.
\<close>

partial_function (option) pulse_loop :: "ins \<Rightarrow> nat \<Rightarrow> pulse \<Rightarrow> pulse option" where
  "pulse_loop spkr_a dty st =
    (if g_cyc st + cyc jmp < CYC_MAX then pulse_loop spkr_a dty (pulse_step spkr_a dty st)
     else Some st)"

declare pulse_loop.simps [code]

text \<open>
  \<^verbatim>\<open>*loc = (uint16_t)ptr\<close>: a 16-bit store, low byte first on the 6502. With \<^verbatim>\<open>loc\<close>
  never assigned the store goes through an indeterminate pointer: \<open>Wild_loc\<close>.
\<close>

definition set_loc :: "pulse \<Rightarrow> error + pulse" where
  "set_loc st =
    (case g_loc st of
       None \<Rightarrow> Inl Wild_loc
     | Some loc \<Rightarrow>
         Inr (st\<lparr>g_mem := (g_mem st)(loc := LO (g_ptr st), loc + 1 := HI (g_ptr st))\<rparr>))"

text \<open>The terminal jump: its opcode and the low byte; the high byte is not written.\<close>

definition chain :: "8 word \<Rightarrow> pulse \<Rightarrow> pulse" where
  "chain low st = mark Chain (add_cyc (cyc jmp) (put low (put (opc jmp ! 0) st)))"

text \<open>
  The end of both generator functions: the saved location receives the address that
  follows the low byte of the jump, then \<^verbatim>\<open>assert(cyc == CYC_MAX)\<close> and
  \<^verbatim>\<open>assert(ptr - org < GEN_MAX)\<close> (a build without \<^verbatim>\<open>NDEBUG\<close>).
\<close>

definition finish :: "nat \<Rightarrow> pulse \<Rightarrow> error + pulse" where
  "finish org st =
    (case set_loc st of
       Inl e \<Rightarrow> Inl e
     | Inr st' \<Rightarrow>
         if g_cyc st' \<noteq> CYC_MAX then Inl Assert_cyc
         else if \<not> g_ptr st' - org < GEN_MAX then Inl Assert_size
         else Inr st')"

text \<open>
  The start of \<^verbatim>\<open>gen_pulse\<close>: the duty end for generator 34 (the speaker access and two
  \<^verbatim>\<open>NOP\<close>), the duty start, \<^verbatim>\<open>cyc = spkr_a.cyc\<close> and \<^verbatim>\<open>nxt = pull\<close>.
\<close>

definition pulse_init :: "ins \<Rightarrow> (nat \<Rightarrow> 8 word) \<Rightarrow> nat \<Rightarrow> ins list \<Rightarrow> pulse" where
  "pulse_init spkr_a mem org tsk =
    (let st0 = \<lparr>g_mem = mem, g_ptr = org, g_cyc = 0, g_nxt = Pull, g_loc = None,
               g_ins = tsk, g_log = []\<rparr>;
         st1 = mark Early_end (put (opc nop ! 0) (put (opc nop ! 0) (put_spkr_a spkr_a st0)))
     in (mark Duty_start (put_spkr_a spkr_a st1))\<lparr>g_cyc := cyc spkr_a\<rparr>)"

text \<open>
  \<^verbatim>\<open>gen_pulse(ptr, ins, dty, low)\<close>, with the global \<^verbatim>\<open>spkr_a\<close> and the auxiliary memory
  as further arguments; \<^verbatim>\<open>dty += spkr_a.cyc\<close> is a \<^verbatim>\<open>uint8_t\<close> addition. The assertions
  are those of the source, in its order; \<^verbatim>\<open>assert(spkr_a.len == 3)\<close> is checked where it
  comes first, the descriptor being the same at its later occurrences, and the
  assertions on the lengths of the constant descriptors hold by their definitions.
\<close>

definition gen_pulse ::
  "ins \<Rightarrow> (nat \<Rightarrow> 8 word) \<Rightarrow> nat \<Rightarrow> ins list \<Rightarrow> nat \<Rightarrow> 8 word \<Rightarrow> (error + pulse) option" where
  "gen_pulse spkr_a mem org tsk d low =
    (if len spkr_a \<noteq> 3 then Some (Inl Assert_len)
     else
       case pulse_loop spkr_a ((d + cyc spkr_a) mod 256) (pulse_init spkr_a mem org tsk) of
         None \<Rightarrow> None
       | Some st \<Rightarrow>
           Some (case finish org (chain low st) of
                   Inl e \<Rightarrow> Inl e
                 | Inr st' \<Rightarrow>
                     if g_nxt st' \<noteq> Done then Inl Assert_nxt
                     else if has_ins (g_ins st') then Inl Assert_ins
                     else Inr st'))"

section \<open>gen_pulse_34\<close>

text \<open>
  The two loops \<^verbatim>\<open>while (ins->opc[0]) { for (pos ...) *ptr++ = ins->opc[pos]; cyc += ins++->cyc; }\<close>
  of \<^verbatim>\<open>gen_pulse_34\<close>, over \<^verbatim>\<open>pulse_34\<close> and over the task: the result is the
  pointer left at the end marker and the state.
\<close>

fun put_list :: "(ins \<Rightarrow> placed) \<Rightarrow> ins list \<Rightarrow> pulse \<Rightarrow> ins list \<times> pulse" where
  "put_list tag [] st = ([], st)"
| "put_list tag (i # is) st =
     (if opc i ! 0 \<noteq> 0 then put_list tag is (mark (tag i) (add_cyc (cyc i) (put_ins i st)))
      else (i # is, st))"

text \<open>\<^verbatim>\<open>while (cyc + jmp.cyc < CYC_MAX) { *ptr++ = nop.opc[0]; cyc += nop.cyc; }\<close>\<close>

function fill_nops :: "pulse \<Rightarrow> pulse" where
  "fill_nops st =
    (if g_cyc st + cyc jmp < CYC_MAX
     then fill_nops (fill_nop st)
     else st)"
  by pat_completeness auto
termination
  by (relation "measure (\<lambda>st. CYC_MAX - g_cyc st)")
    (auto simp: fill_nop_def mark_def add_cyc_def put_def CYC_MAX_def static_defs macro_defs)

declare fill_nops.simps [simp del]

text \<open>
  \<^verbatim>\<open>gen_pulse_34(ptr, ins, low)\<close>. It has no \<^verbatim>\<open>nxt\<close>: the field keeps its initial value.
  \<^verbatim>\<open>loc = (uint16_t *)ptr - 1\<close> is two bytes below \<^verbatim>\<open>ptr\<close>.
\<close>

definition gen_pulse_34 :: "(nat \<Rightarrow> 8 word) \<Rightarrow> nat \<Rightarrow> ins list \<Rightarrow> 8 word \<Rightarrow> error + pulse" where
  "gen_pulse_34 mem org tsk low =
    (let st0 = \<lparr>g_mem = mem, g_ptr = org, g_cyc = 0, g_nxt = Pull, g_loc = None,
               g_ins = tsk, g_log = []\<rparr>;
         (ins_34, st1) = put_list Fixed pulse_34 st0;
         st2 = st1\<lparr>g_loc := Some (g_ptr st1 - 2)\<rparr>;
         (rest, st3) = put_list Work (g_ins st2) st2;
         st4 = st3\<lparr>g_ins := rest\<rparr>;
         st5 = (if (int (g_cyc st4) - int (cyc jmp)) mod 2 \<noteq> 0 then fill_bra st4 else st4);
         st6 = fill_nops st5
     in finish org (chain low st6))"

section \<open>gen_player\<close>

text \<open>
  The state \<^verbatim>\<open>gen_player\<close> works on: the descriptor \<^verbatim>\<open>spkr_a\<close>, the ten task arrays,
  the auxiliary memory that receives the generators, and the main memory with the two
  zero page pointers.
\<close>

record player =
  spkr_a :: ins
  tasks :: "task \<Rightarrow> ins list"
  aux :: "nat \<Rightarrow> 8 word"
  main :: "nat \<Rightarrow> 8 word"

definition start :: "bool \<Rightarrow> (nat \<Rightarrow> 8 word) \<Rightarrow> (nat \<Rightarrow> 8 word) \<Rightarrow> player" where
  "start have_eth a m = \<lparr>spkr_a = spkr_a0, tasks = task_table have_eth, aux = a, main = m\<rparr>"

text \<open>
  The body of the \<^verbatim>\<open>d\<close> loop chooses the function and its arguments
  (\<^verbatim>\<open>if (d == 34) gen_pulse_34(...) else gen_pulse(...)\<close>); the choice is a value, so
  that it can be spoken about. The \<^verbatim>\<open>low\<close> argument is a \<^verbatim>\<open>uint8_t\<close>.
\<close>

datatype call =
  Gen_pulse nat "ins list" nat "8 word"
  | Gen_pulse_34 nat "ins list" "8 word"

definition dispatch :: "player \<Rightarrow> nat \<Rightarrow> nat \<Rightarrow> nat \<Rightarrow> call" where
  "dispatch st s g d =
    (let s_ptr = PLAY_BUF + s * DTY_MAX * 0x0100;
         g_ptr = s_ptr + g * GEN_MAX;
         f = flow ! s ! g
     in if d = 34
        then Gen_pulse_34 (g_ptr + d * 0x0100) (tasks st (ins f)) (of_nat (nxt f * GEN_MAX))
        else Gen_pulse (g_ptr + d * 0x0100) (tasks st (ins f)) d
               (of_nat (nxt f * GEN_MAX + GEN_END)))"

fun run_call :: "player \<Rightarrow> call \<Rightarrow> (error + pulse) option" where
  "run_call st (Gen_pulse p tsk d low) = gen_pulse (spkr_a st) (aux st) p tsk d low"
| "run_call st (Gen_pulse_34 p tsk low) = Some (gen_pulse_34 (aux st) p tsk low)"

text \<open>The \<^verbatim>\<open>d\<close> loop: a failed assertion ends the program, a loop that hangs hangs it.\<close>

fun gen_duties :: "player \<Rightarrow> nat \<Rightarrow> nat \<Rightarrow> nat list \<Rightarrow> (error + player) option" where
  "gen_duties st s g [] = Some (Inr st)"
| "gen_duties st s g (d # ds) =
     (case run_call st (dispatch st s g d) of
        None \<Rightarrow> None
      | Some (Inl e) \<Rightarrow> Some (Inl e)
      | Some (Inr p) \<Rightarrow> gen_duties (st\<lparr>aux := g_mem p\<rparr>) s g ds)"

text \<open>
  The \<^verbatim>\<open>g\<close> loop: \<^verbatim>\<open>fix_eth(f->ins, e_ofs)\<close> rewrites the task array of the slot, then
  the 36 generators of the slot are made from it. \<^verbatim>\<open>f->ins\<close> is never null.
\<close>

definition fix_slot :: "8 word \<Rightarrow> player \<Rightarrow> nat \<Rightarrow> nat \<Rightarrow> player" where
  "fix_slot e_ofs st s g =
    (let f = flow ! s ! g in st\<lparr>tasks := (tasks st)(ins f := fix_eth (tasks st (ins f)) e_ofs)\<rparr>)"

fun gen_slots :: "8 word \<Rightarrow> player \<Rightarrow> nat \<Rightarrow> nat list \<Rightarrow> (error + player) option" where
  "gen_slots e_ofs st s [] = Some (Inr st)"
| "gen_slots e_ofs st s (g # gs) =
     (case gen_duties (fix_slot e_ofs st s g) s g [0..<DTY_MAX] of
        None \<Rightarrow> None
      | Some (Inl e) \<Rightarrow> Some (Inl e)
      | Some (Inr st') \<Rightarrow> gen_slots e_ofs st' s gs)"

fun gen_sets :: "8 word \<Rightarrow> player \<Rightarrow> nat list \<Rightarrow> (error + player) option" where
  "gen_sets e_ofs st [] = Some (Inr st)"
| "gen_sets e_ofs st (s # ss) =
     (case gen_slots e_ofs st s [0..<GEN_NUM] of
        None \<Rightarrow> None
      | Some (Inl e) \<Rightarrow> Some (Inl e)
      | Some (Inr st') \<Rightarrow> gen_sets e_ofs st' ss)"

text \<open>
  \<^verbatim>\<open>gen_player(e_ini, t_out)\<close> up to the end of the loops: the tape switch on
  \<^verbatim>\<open>spkr_a\<close>, the two zero page pointers (16-bit stores, low byte first) and the three
  nested loops. Console output and the mock buffer of the build without \<^verbatim>\<open>HAVE_ETH\<close>
  are left out.
\<close>

definition prepare :: "bool \<Rightarrow> player \<Rightarrow> player" where
  "prepare t_out st =
    (let st1 = (if t_out then st\<lparr>spkr_a := (spkr_a st)\<lparr>opc := (opc (spkr_a st))[1 := 0x20]\<rparr>\<rparr>
                else st)
     in st1\<lparr>main := (main st1)
              (SPKR_PTR := opc (spkr_a st1) ! 1, SPKR_PTR + 1 := opc (spkr_a st1) ! 2,
               VISU_PTR := LO VISU_BUF, VISU_PTR + 1 := HI VISU_BUF)\<rparr>)"

definition gen_player :: "8 word \<Rightarrow> bool \<Rightarrow> player \<Rightarrow> (error + player) option" where
  "gen_player e_ini t_out st = gen_sets (push_bit 4 e_ini) (prepare t_out st) [0..<SET_NUM]"

subsection \<open>The generator of a triple\<close>

text \<open>
  The state in which \<^verbatim>\<open>gen_player\<close> runs the \<^verbatim>\<open>d\<close> loop of slot \<open>(s, g)\<close>: the
  preparation, \<^verbatim>\<open>fix_eth\<close> for the slots that the two outer loops have visited before,
  and \<^verbatim>\<open>fix_eth\<close> for the slot itself. The generators made on the way have only written
  auxiliary memory, which every statement below leaves arbitrary.
\<close>

definition slots_before :: "nat \<Rightarrow> nat \<Rightarrow> (nat \<times> nat) list" where
  "slots_before s g =
    concat (map (\<lambda>s'. map (\<lambda>g'. (s', g'))
      (filter (\<lambda>g'. s' < s \<or> g' < g) [0..<GEN_NUM])) [0..<Suc s])"

definition slot_state :: "8 word \<Rightarrow> bool \<Rightarrow> player \<Rightarrow> nat \<Rightarrow> nat \<Rightarrow> player" where
  "slot_state e_ini t_out st s g =
    fix_slot (push_bit 4 e_ini)
      (fold (\<lambda>(s', g') st'. fix_slot (push_bit 4 e_ini) st' s' g') (slots_before s g)
        (prepare t_out st)) s g"

text \<open>The call that makes the generator of the triple \<open>(s, g, d)\<close>, and what it returns.\<close>

definition generator ::
  "bool \<Rightarrow> 8 word \<Rightarrow> bool \<Rightarrow> (nat \<Rightarrow> 8 word) \<Rightarrow> (nat \<Rightarrow> 8 word) \<Rightarrow> nat \<Rightarrow> nat \<Rightarrow> nat
     \<Rightarrow> (error + pulse) option" where
  "generator have_eth e_ini t_out a m s g d =
    (let st = slot_state e_ini t_out (start have_eth a m) s g
     in run_call st (dispatch st s g d))"

text \<open>The address \<^verbatim>\<open>g_ptr + d * 0x0100\<close> at which the generator of a triple is put.\<close>

definition gen_org :: "nat \<Rightarrow> nat \<Rightarrow> nat \<Rightarrow> nat" where
  "gen_org s g d = PLAY_BUF + s * DTY_MAX * 0x0100 + g * GEN_MAX + d * 0x0100"

text \<open>The instructions of a task array: what stands before the end marker.\<close>

definition instructions :: "ins list \<Rightarrow> ins list" where
  "instructions tsk = takeWhile (\<lambda>i. opc i ! 0 \<noteq> 0) tsk"

text \<open>The task instructions among the placements, in the order of their placement.\<close>

fun works :: "placed list \<Rightarrow> ins list" where
  "works [] = []"
| "works (Work i # ps) = i # works ps"
| "works (p # ps) = works ps"

text \<open>A 16-bit operand in memory, low byte first.\<close>

definition read16 :: "(nat \<Rightarrow> 8 word) \<Rightarrow> nat \<Rightarrow> nat" where
  "read16 mem a = unat (mem a) + 256 * unat (mem (a + 1))"

text \<open>
  The bytes that a placement puts into memory, in the order of the addresses; \<open>None\<close>
  stands for a byte that the placement skips (the operand of the store, which is written
  at the end). \<open>image\<close> is the memory image of a sequence of placements; \<open>holds\<close>
  says that memory has an image at an address, and \<open>holds_but\<close> says so of all its
  bytes except the two cells of a 16-bit operand at \<open>l\<close>.
\<close>

fun code :: "ins \<Rightarrow> 8 word \<Rightarrow> placed \<Rightarrow> 8 word option list" where
  "code spk low Early_end =
     [Some (opc spk ! 0), Some (opc spk ! 1), Some (opc spk ! 2), Some (opc nop ! 0),
      Some (opc nop ! 0)]"
| "code spk low Duty_start = [Some (opc spk ! 0), Some (opc spk ! 1), Some (opc spk ! 2)]"
| "code spk low Duty_end = [Some (opc spk ! 0), Some (opc spk ! 1), Some (opc spk ! 2)]"
| "code spk low Duty_end_stretched = [Some (opc spkr_i ! 0), Some (opc spkr_i ! 1)]"
| "code spk low Pull_sample = [Some (opc plx ! 0)]"
| "code spk low Store_sample = [Some (opc stx ! 0), None, None]"
| "code spk low (Work i) = map (\<lambda>pos. Some (opc i ! pos)) [0..<len i]"
| "code spk low Fill_bra = [Some (opc bra_nop ! 0), Some (opc bra_nop ! 1)]"
| "code spk low Fill_nop = [Some (opc nop ! 0)]"
| "code spk low Chain = [Some (opc jmp ! 0), Some low]"
| "code spk low (Fixed i) = map (\<lambda>pos. Some (opc i ! pos)) [0..<len i]"

definition image :: "ins \<Rightarrow> 8 word \<Rightarrow> placed list \<Rightarrow> 8 word option list" where
  "image spk low ps = concat (map (code spk low) ps)"

definition holds :: "(nat \<Rightarrow> 8 word) \<Rightarrow> nat \<Rightarrow> 8 word option list \<Rightarrow> bool" where
  "holds mem org bs = (\<forall>k < length bs. \<forall>b. bs ! k = Some b \<longrightarrow> mem (org + k) = b)"

definition holds_but :: "(nat \<Rightarrow> 8 word) \<Rightarrow> nat \<Rightarrow> 8 word option list \<Rightarrow> nat \<Rightarrow> bool" where
  "holds_but mem org bs l =
    (\<forall>k < length bs. org + k \<noteq> l \<longrightarrow> org + k \<noteq> l + 1 \<longrightarrow>
       (\<forall>b. bs ! k = Some b \<longrightarrow> mem (org + k) = b))"

text \<open>
  The cycles of a placement: the cycle counts of the descriptors it emits. \<open>cost\<close> is
  the cycle cost of a sequence of placements, the sum over the instructions emitted.
\<close>

fun cycles :: "ins \<Rightarrow> placed \<Rightarrow> nat" where
  "cycles spk Early_end = cyc spk + cyc nop + cyc nop"
| "cycles spk Duty_start = cyc spk"
| "cycles spk Duty_end = cyc spk"
| "cycles spk Duty_end_stretched = cyc spkr_i"
| "cycles spk Pull_sample = cyc plx"
| "cycles spk Store_sample = cyc stx"
| "cycles spk (Work i) = cyc i"
| "cycles spk Fill_bra = cyc bra_nop"
| "cycles spk Fill_nop = cyc nop"
| "cycles spk Chain = cyc jmp"
| "cycles spk (Fixed i) = cyc i"

definition cost :: "ins \<Rightarrow> placed list \<Rightarrow> nat" where
  "cost spk ps = sum_list (map (cycles spk) ps)"

text \<open>
  Every generator begins with the duty end for generator 34, which the jump of a
  generator 34 enters and every other jump skips (\<^verbatim>\<open>GEN_END\<close>): the first
  placement of \<^verbatim>\<open>gen_pulse\<close>, the first three descriptors of \<^verbatim>\<open>pulse_34\<close>.
\<close>

definition early :: "nat \<Rightarrow> nat" where
  "early d = (if d = 34 then 3 else 1)"

subsection \<open>Walking the flow graph\<close>

text \<open>
  A generator of slot \<open>g\<close> in page set \<open>s\<close> jumps to the slot \<^verbatim>\<open>flow[s][g].nxt\<close>: the low
  byte of its jump is \<^verbatim>\<open>nxt * GEN_MAX\<close> (plus \<^verbatim>\<open>GEN_END\<close>). The page set of the successor
  is not in the table; the high byte of the jump, the next sample, selects it. \<open>walk\<close>
  follows the next slot inside a page set, \<open>cross\<close> is the successor when the sample
  switches to the other page set.
\<close>

definition next_slot :: "nat \<Rightarrow> nat \<Rightarrow> nat" where
  "next_slot s g = nxt (flow ! s ! g)"

fun walk :: "nat \<Rightarrow> nat \<Rightarrow> nat \<Rightarrow> nat" where
  "walk s g 0 = g"
| "walk s g (Suc k) = next_slot s (walk s g k)"

definition cross :: "nat \<Rightarrow> nat \<Rightarrow> nat \<times> nat" where
  "cross s g = (1 - s, next_slot s g)"

section \<open>play\<close>

datatype state = playing | pausing | waiting

definition CH_ESC :: "8 word" where "CH_ESC = 0x1B"

text \<open>
  What one pass of the loop of \<^verbatim>\<open>play\<close> reads from its collaborators:
  \<^verbatim>\<open>w5100_connected()\<close>, the key (\<open>None\<close> when \<^verbatim>\<open>kbhit()\<close> is false, else what
  \<^verbatim>\<open>cgetc()\<close> returns) and \<^verbatim>\<open>w5100_receive_request()\<close>; and what it does to them.
\<close>

record poll =
  connected :: bool
  key :: "8 word option"
  avail :: nat

datatype action = W5100_disconnect | Mix_off | Enter | Mix_on | Cputsxy nat nat string

text \<open>
  The key: \<^verbatim>\<open>CH_ESC\<close> disconnects and returns (\<open>None\<close>), any other key toggles.
\<close>

definition on_key :: "state \<Rightarrow> 8 word option \<Rightarrow> state option" where
  "on_key st k =
    (case k of
       None \<Rightarrow> Some st
     | Some c \<Rightarrow>
         if c = CH_ESC then None
         else if st = pausing then Some playing
         else Some pausing)"

text \<open>The buffer check, compiled only with \<^verbatim>\<open>HAVE_ETH\<close>.\<close>

definition on_buffer :: "bool \<Rightarrow> state \<Rightarrow> nat \<Rightarrow> state" where
  "on_buffer have_eth st n =
    (if have_eth \<and> st \<noteq> pausing then (if n \<ge> 0x0100 then playing else waiting) else st)"

definition act :: "state \<Rightarrow> action list" where
  "act st =
    (if st = playing then [Mix_off, Enter]
     else [Mix_on, Cputsxy 35 22 (if st = pausing then ''Paus'' else ''Wait'')])"

text \<open>One pass of the loop body: what it does, and the next state unless it returns.\<close>

definition play_body :: "bool \<Rightarrow> state \<Rightarrow> poll \<Rightarrow> action list \<times> state option" where
  "play_body have_eth st p =
    (case on_key st (key p) of
       None \<Rightarrow> ([W5100_disconnect], None)
     | Some st1 \<Rightarrow>
         (let st2 = on_buffer have_eth st1 (avail p) in (act st2, Some st2)))"



section \<open>The handshake in main\<close>

text \<open>
  The block of \<^verbatim>\<open>main\<close> that follows the opening of the connection: the two bytes of
  the stream type are loaded, then the two hires pages of the cover art, then \<^verbatim>\<open>play()\<close>
  runs. \<open>tag\<close> is what \<^verbatim>\<open>load(type, 2, false)\<close> delivers (\<open>None\<close> when it fails),
  \<open>h1\<close> and \<open>h2\<close> what the two calls of \<^verbatim>\<open>load_hires\<close> return if they are made.
\<close>

datatype report = Failed | Unknown_stream_type

datatype event =
  Load_type | Load_hires bool | Report report | Disconnect | Next_url | Play

definition abandon :: "report \<Rightarrow> event list" where
  "abandon r = [Report r, Disconnect, Next_url]"

definition accept_stream :: "(8 word \<times> 8 word) option \<Rightarrow> bool \<Rightarrow> bool \<Rightarrow> event list" where
  "accept_stream tag h1 h2 =
    Load_type #
    (case tag of
       None \<Rightarrow> abandon Failed
     | Some (t0, t1) \<Rightarrow>
         if t0 \<noteq> 0xA2 \<or> t1 \<noteq> 0x01 then abandon Unknown_stream_type
         else Load_hires True #
           (if \<not> h1 then abandon Failed
            else Load_hires False # (if \<not> h2 then abandon Failed else [Play])))"

section \<open>Notions of the proofs\<close>

text \<open>
  What the control flow of the two generator functions reads of a descriptor: whether
  it is the end marker, its length and its cycles.
\<close>

type_synonym shape = "bool \<times> nat \<times> nat"

definition shape :: "ins \<Rightarrow> shape" where
  "shape i = (opc i ! 0 \<noteq> 0, len i, cyc i)"

definition nz :: "ins \<Rightarrow> bool" where
  "nz i = (opc i ! 0 \<noteq> 0)"

text \<open>
  The skeleton of \<^verbatim>\<open>gen_pulse\<close>: cycle counter, bytes emitted, next sample work and the
  shapes of the instructions left. \<open>sk_step\<close> and \<open>sk_loop\<close> are \<open>pulse_step\<close> and
  \<open>pulse_loop\<close> on it.
\<close>

datatype skel = Skel nat nat nxt "shape list"

fun sk_has :: "shape list \<Rightarrow> bool" where
  "sk_has [] = False"
| "sk_has ((b, l, c) # js) = b"

fun sk_step :: "nat \<Rightarrow> nat \<Rightarrow> skel \<Rightarrow> skel" where
  "sk_step c_spk dty (Skel c sz n js) =
    (if c = dty then Skel ((c + c_spk) mod 256) (sz + 3) n js
     else if c + 1 = dty then Skel ((c + 5) mod 256) (sz + 2) n js
     else if n = Pull \<and> (c + 4 \<le> dty \<or> c > dty) then Skel ((c + 4) mod 256) (sz + 1) Store js
     else if n = Store \<and> (c + 4 \<le> dty \<or> c > dty) then Skel ((c + 4) mod 256) (sz + 3) Done js
     else if sk_has js \<and> (c + snd (snd (hd js)) \<le> dty \<or> c > dty)
       then Skel ((c + snd (snd (hd js))) mod 256) (sz + fst (snd (hd js))) n (tl js)
     else if (c < dty \<and> (dty - c) mod 2 \<noteq> 0) \<or> (c > dty \<and> (int c - 3) mod 2 \<noteq> 0)
       then Skel ((c + 3) mod 256) (sz + 2) n js
     else Skel ((c + 2) mod 256) (sz + 1) n js)"

fun sk_cyc :: "skel \<Rightarrow> nat" where
  "sk_cyc (Skel c sz n js) = c"

partial_function (option) sk_loop :: "nat \<Rightarrow> nat \<Rightarrow> skel \<Rightarrow> skel option" where
  "sk_loop c_spk dty sk =
    (if sk_cyc sk + 3 < 46 then sk_loop c_spk dty (sk_step c_spk dty sk) else Some sk)"

fun sk_rel :: "nat \<Rightarrow> pulse \<Rightarrow> skel \<Rightarrow> bool" where
  "sk_rel org st (Skel c sz n js) =
    (g_cyc st = c \<and> g_ptr st = org + sz \<and> g_nxt st = n \<and> map shape (g_ins st) = js)"

definition sk_good :: "nat \<Rightarrow> shape list \<Rightarrow> bool" where
  "sk_good d sh =
    (case sk_loop 4 ((d + 4) mod 256) (Skel 4 8 Pull sh) of
       None \<Rightarrow> False
     | Some (Skel c sz n rest) \<Rightarrow> c = 43 \<and> n = Done \<and> \<not> sk_has rest \<and> sz + 2 < 43)"

text \<open>The skeleton of \<^verbatim>\<open>gen_pulse_34\<close>: cycles and bytes.\<close>

fun sk_list :: "shape list \<Rightarrow> nat \<times> nat \<Rightarrow> nat \<times> nat" where
  "sk_list [] (c, sz) = (c, sz)"
| "sk_list ((b, l, k) # js) (c, sz) =
     (if b then sk_list js ((c + k) mod 256, sz + l) else (c, sz))"

function sk_fill :: "nat \<times> nat \<Rightarrow> nat \<times> nat" where
  "sk_fill (c, sz) = (if c + 3 < 46 then sk_fill ((c + 2) mod 256, sz + 1) else (c, sz))"
  by pat_completeness auto
termination
  by (relation "measure (\<lambda>(c, sz). 46 - c)") auto

declare sk_fill.simps [simp del]

definition sk34_good :: "shape list \<Rightarrow> bool" where
  "sk34_good sh =
    (case sk_list sh (20, 12) of
       (c, sz) \<Rightarrow>
         (case sk_fill (if (int c - 3) mod 2 \<noteq> 0 then ((c + 3) mod 256, sz + 2) else (c, sz)) of
            (c', sz') \<Rightarrow> c' = 43 \<and> sz' + 2 < 43))"

text \<open>The duty values of the general path, and a table whose 36 skeletons are good.\<close>

definition duties :: "nat list" where
  "duties = [0, 1, 2, 3, 4, 5, 6, 7, 8, 9, 10, 11, 12, 13, 14, 15, 16, 17, 18, 19, 20, 21, 22, 23, 24, 25, 26, 27, 28, 29, 30, 31, 32, 33, 35]"

definition all_good :: "shape list \<Rightarrow> bool" where
  "all_good sh = (list_all (\<lambda>d. sk_good d sh) duties \<and> sk34_good sh)"

text \<open>The invariants of the loop of \<^verbatim>\<open>gen_pulse\<close>.\<close>

definition inv_log :: "ins list \<Rightarrow> pulse \<Rightarrow> bool" where
  "inv_log tsk st =
    (works (g_log st) @ g_ins st = tsk \<and> list_all nz (works (g_log st)) \<and>
     count_list (g_log st) Pull_sample = (if g_nxt st = Pull then 0 else 1) \<and>
     count_list (g_log st) Store_sample = (if g_nxt st = Done then 1 else 0))"

definition inv_loc :: "nat \<Rightarrow> pulse \<Rightarrow> bool" where
  "inv_loc org st =
    (org \<le> g_ptr st \<and>
     (case g_loc st of
        None \<Rightarrow> g_nxt st \<noteq> Done
      | Some l \<Rightarrow> org < l \<and> l + 2 \<le> g_ptr st \<and> g_mem st (l - 1) = 0x8E))"

text \<open>The placements so far are in memory, from the origin to the pointer.\<close>

definition inv_img :: "ins \<Rightarrow> 8 word \<Rightarrow> nat \<Rightarrow> pulse \<Rightarrow> bool" where
  "inv_img spk low org st =
    (g_ptr st = org + length (image spk low (g_log st)) \<and>
     holds (g_mem st) org (image spk low (g_log st)))"

text \<open>
  A task array is light when its cycles sum up to less than 200: then the
  \<^verbatim>\<open>uint8_t\<close> counter does not wrap while it is placed. \<open>inv_cost\<close> is the invariant
  of the loop of \<^verbatim>\<open>gen_pulse\<close> that the counter is the cost of the placements behind
  the duty end for generator 34.
\<close>

definition light :: "shape list \<Rightarrow> bool" where
  "light sh = (sum_list (map (\<lambda>j. snd (snd j)) sh) < 200)"

definition inv_cost :: "ins \<Rightarrow> pulse \<Rightarrow> bool" where
  "inv_cost spk st =
    (cost spk (g_log st) = 8 + g_cyc st \<and> g_cyc st < 256 \<and>
     (\<exists>ps. g_log st = Early_end # ps) \<and> (\<forall>i \<in> set (g_ins st). cyc i < 200))"

text \<open>
  What \<^verbatim>\<open>gen_player\<close> keeps of the descriptors: the shapes of the task arrays, and the
  length and the cycles of \<^verbatim>\<open>spkr_a\<close>.
\<close>

definition wf_tables :: "bool \<Rightarrow> player \<Rightarrow> bool" where
  "wf_tables have_eth st =
    ((\<forall>t. map shape (tasks st t) = map shape (task_table have_eth t)) \<and>
     len (spkr_a st) = 3 \<and> cyc (spkr_a st) = 4)"

text \<open>
  What \<^verbatim>\<open>gen_player\<close> leaves of a descriptor as it was: everything but the second opcode
  byte.
\<close>

definition frozen :: "ins \<Rightarrow> 8 word \<times> 8 word list \<times> nat \<times> nat \<times> nat \<times> bool" where
  "frozen i = (opc i ! 0, drop 2 (opc i), length (opc i), len i, cyc i, eth i)"

text \<open>A task array after a run of \<^verbatim>\<open>gen_player\<close>, if the run returns.\<close>

definition tasks_after :: "(error + player) option \<Rightarrow> task \<Rightarrow> ins list option" where
  "tasks_after r t = (case r of Some (Inr st) \<Rightarrow> Some (tasks st t) | _ \<Rightarrow> None)"

text \<open>The calls of \<^verbatim>\<open>fix_eth\<close> of a whole run, in the order of the two outer loops.\<close>

definition fix_all :: "8 word \<Rightarrow> player \<Rightarrow> player" where
  "fix_all e_ofs st =
    fold (\<lambda>s st'. fold (\<lambda>g st''. fix_slot e_ofs st'' s g) [0..<GEN_NUM] st') [0..<SET_NUM] st"

section \<open>Lemmas on the generator functions\<close>

lemmas branch_defs = put_spkr_a_def duty_end_def duty_end_stretched_def pull_sample_def store_sample_def work_def fill_bra_def fill_nop_def

lemma put_fields [simp]:
  "g_ptr (put b st) = g_ptr st + 1" "g_cyc (put b st) = g_cyc st" "g_nxt (put b st) = g_nxt st"
  "g_loc (put b st) = g_loc st" "g_ins (put b st) = g_ins st" "g_log (put b st) = g_log st"
  "g_mem (put b st) = (g_mem st)(g_ptr st := b)"
  by (simp_all add: put_def)

lemma add_cyc_fields [simp]:
  "g_ptr (add_cyc c st) = g_ptr st" "g_cyc (add_cyc c st) = (g_cyc st + c) mod 256"
  "g_nxt (add_cyc c st) = g_nxt st" "g_loc (add_cyc c st) = g_loc st"
  "g_ins (add_cyc c st) = g_ins st" "g_log (add_cyc c st) = g_log st"
  "g_mem (add_cyc c st) = g_mem st"
  by (simp_all add: add_cyc_def)

lemma mark_fields [simp]:
  "g_ptr (mark p st) = g_ptr st" "g_cyc (mark p st) = g_cyc st"
  "g_nxt (mark p st) = g_nxt st" "g_loc (mark p st) = g_loc st"
  "g_ins (mark p st) = g_ins st" "g_log (mark p st) = g_log st @ [p]"
  "g_mem (mark p st) = g_mem st"
  by (simp_all add: mark_def)

lemma fold_put_fields:
  "g_ptr (fold (\<lambda>pos. put (f pos)) xs st) = g_ptr st + length xs"
  "g_cyc (fold (\<lambda>pos. put (f pos)) xs st) = g_cyc st"
  "g_nxt (fold (\<lambda>pos. put (f pos)) xs st) = g_nxt st"
  "g_loc (fold (\<lambda>pos. put (f pos)) xs st) = g_loc st"
  "g_ins (fold (\<lambda>pos. put (f pos)) xs st) = g_ins st"
  "g_log (fold (\<lambda>pos. put (f pos)) xs st) = g_log st"
  by (induction xs arbitrary: st; simp)+

lemma fold_put_mem:
  "a < g_ptr st \<Longrightarrow> g_mem (fold (\<lambda>pos. put (f pos)) xs st) a = g_mem st a"
  by (induction xs arbitrary: st) simp_all

lemma put_ins_fields [simp]:
  "g_ptr (put_ins i st) = g_ptr st + len i" "g_cyc (put_ins i st) = g_cyc st"
  "g_nxt (put_ins i st) = g_nxt st" "g_loc (put_ins i st) = g_loc st"
  "g_ins (put_ins i st) = g_ins st" "g_log (put_ins i st) = g_log st"
  by (simp_all add: put_ins_def fold_put_fields)

lemma put_ins_mem: "a < g_ptr st \<Longrightarrow> g_mem (put_ins i st) a = g_mem st a"
  by (simp add: put_ins_def fold_put_mem)

lemma static_shape [simp]:
  "cyc jmp = 3" "cyc plx = 4" "cyc stx = 4" "cyc nop = 2" "cyc bra_nop = 3" "cyc spkr_i = 5"
  "len jmp = 3" "len plx = 1" "len stx = 3" "len nop = 1" "len bra_nop = 2" "len spkr_i = 2"
  by (simp_all add: static_defs macro_defs)

lemma has_ins_shape: "has_ins is = sk_has (map shape is)"
  by (cases "is") (simp_all add: shape_def)

lemma step_rel:
  assumes "sk_rel org st sk" and "len spk = 3"
  shows "sk_rel org (pulse_step spk dty st) (sk_step (cyc spk) dty sk)"
proof (cases sk)
  case (Skel c sz n js)
  with assms have r: "g_cyc st = c" "g_ptr st = org + sz" "g_nxt st = n" "map shape (g_ins st) = js"
    by simp_all
  show ?thesis
  proof (cases "g_ins st")
    case Nil
    with r have "js = []" by simp
    with Nil r assms(2) show ?thesis
      unfolding Skel pulse_step_def sk_step.simps branch_defs Let_def by simp blast
  next
    case (Cons i rest)
    with r have "js = shape i # map shape rest" by auto
    with Cons r assms(2) show ?thesis
      unfolding Skel pulse_step_def sk_step.simps branch_defs Let_def by (simp add: shape_def)
  qed
qed

lemma rel_cyc: "sk_rel org st sk \<Longrightarrow> sk_cyc sk = g_cyc st"
  by (cases sk) simp

lemma loop_rel:
  assumes "sk_loop c dty sk = Some sk'"
  shows "sk_rel org st sk \<Longrightarrow> cyc spk = c \<Longrightarrow> len spk = 3 \<Longrightarrow>
         \<exists>r. pulse_loop spk dty st = Some r \<and> sk_rel org r sk'"
  using assms
proof (induction arbitrary: st rule: sk_loop.raw_induct[rotated 1, consumes 1])
  case (1 loop c dty sk sk')
  show ?case
  proof (cases "sk_cyc sk + 3 < 46")
    case True
    with 1(2) have "loop c dty (sk_step c dty sk) = Some sk'" by simp
    moreover have "sk_rel org (pulse_step spk dty st) (sk_step c dty sk)"
      using step_rel[OF 1(3) 1(5)] 1(4) by simp
    ultimately obtain r where "pulse_loop spk dty (pulse_step spk dty st) = Some r" "sk_rel org r sk'"
      using 1(1) 1(4) 1(5) by blast
    moreover have "g_cyc st + cyc jmp < CYC_MAX"
      using True rel_cyc[OF 1(3)] by (simp add: CYC_MAX_def)
    ultimately show ?thesis by (subst pulse_loop.simps) simp
  next
    case False
    with 1(2) have "sk' = sk" by simp
    moreover have "\<not> g_cyc st + cyc jmp < CYC_MAX"
      using False rel_cyc[OF 1(3)] by (simp add: CYC_MAX_def)
    ultimately show ?thesis using 1(3) by (subst pulse_loop.simps) simp
  qed
qed


lemma works_append [simp]: "works (ps @ qs) = works ps @ works qs"
  by (induction ps rule: works.induct) simp_all

lemma pulse_loop_rule_aux:
  "pulse_loop spk dty st = Some r \<Longrightarrow> I st \<Longrightarrow>
   (\<forall>s. I s \<longrightarrow> g_cyc s + cyc jmp < CYC_MAX \<longrightarrow> I (pulse_step spk dty s)) \<Longrightarrow>
   I r \<and> \<not> g_cyc r + cyc jmp < CYC_MAX"
proof (induction rule: pulse_loop.raw_induct[rotated 1, consumes 1])
  case (1 loop spk dty st r)
  show ?case
  proof (cases "g_cyc st + cyc jmp < CYC_MAX")
    case True
    with 1(2) have "loop spk dty (pulse_step spk dty st) = Some r" by simp
    moreover have "I (pulse_step spk dty st)" using 1(3,4) True by blast
    ultimately show ?thesis using 1(1) 1(4) by blast
  next
    case False
    with 1(2) have "r = st" by simp
    with False 1(3) show ?thesis by simp
  qed
qed

lemma pulse_loop_rule:
  assumes "pulse_loop spk dty st = Some r"
    and "I st"
    and "\<And>s. I s \<Longrightarrow> I (pulse_step spk dty s)"
  shows "I r"
  using pulse_loop_rule_aux[OF assms(1), of I] assms(2,3) by blast

lemma pulse_step_cases:
  assumes "P (duty_end spk st)" and "P (duty_end_stretched st)"
    and "g_nxt st = Pull \<Longrightarrow> P (pull_sample st)"
    and "g_nxt st = Store \<Longrightarrow> P (store_sample st)"
    and "has_ins (g_ins st) \<Longrightarrow> P (work st)"
    and "P (fill_bra st)" and "P (fill_nop st)"
  shows "P (pulse_step spk dty st)"
  unfolding pulse_step_def using assms by (simp del: static_shape)

lemma has_ins_Cons: "has_ins js \<Longrightarrow> \<exists>i rest. js = i # rest \<and> nz i"
  by (cases js) (simp_all add: nz_def)

lemma count_list_append [simp]: "count_list (xs @ ys) x = count_list xs x + count_list ys x"
  by (induction xs) simp_all

lemma inv_log_step:
  assumes "inv_log tsk st"
  shows "inv_log tsk (pulse_step spk dty st)"
proof (rule pulse_step_cases)
  assume "has_ins (g_ins st)"
  then obtain i rest where "g_ins st = i # rest" "nz i" using has_ins_Cons by blast
  with assms show "inv_log tsk (work st)"
    by (simp add: inv_log_def work_def)
qed (use assms in \<open>simp_all add: inv_log_def branch_defs\<close>)

lemma opc_stx [simp]: "opc stx ! 0 = 0x8E" "opc jmp ! 0 = 0x4C"
  by (simp_all add: static_defs macro_defs)

lemma inv_loc_step:
  assumes "inv_loc org st"
  shows "inv_loc org (pulse_step spk dty st)"
  by (rule pulse_step_cases)
    (use assms in \<open>auto simp: inv_loc_def branch_defs Let_def put_ins_mem split: option.splits\<close>)


lemma pulse_init_fields:
  "g_ptr (pulse_init spk mem org tsk) = org + 8" "g_cyc (pulse_init spk mem org tsk) = cyc spk"
  "g_nxt (pulse_init spk mem org tsk) = Pull" "g_loc (pulse_init spk mem org tsk) = None"
  "g_ins (pulse_init spk mem org tsk) = tsk"
  "g_log (pulse_init spk mem org tsk) = [Early_end, Duty_start]"
  by (simp_all add: pulse_init_def put_spkr_a_def Let_def)

lemma takeWhile_works:
  assumes "list_all nz ws" and "\<not> has_ins rest"
  shows "instructions (ws @ rest) = ws"
proof -
  have "takeWhile nz (ws @ rest) = ws @ takeWhile nz rest"
    using assms(1) by (simp add: takeWhile_append2 list_all_iff)
  moreover have "takeWhile nz rest = []"
    using assms(2) by (cases rest) (simp_all add: nz_def)
  ultimately show ?thesis by (simp add: instructions_def nz_def[abs_def])
qed

lemma read16_LO_HI: "p < 65536 \<Longrightarrow> 256 * unat (HI p) + unat (LO p) = p"
  by (simp add: LO_def HI_def unat_of_nat take_bit_eq_mod)

lemma chain_fields [simp]:
  "g_ptr (chain low st) = g_ptr st + 2" "g_cyc (chain low st) = (g_cyc st + 3) mod 256"
  "g_nxt (chain low st) = g_nxt st" "g_loc (chain low st) = g_loc st"
  "g_ins (chain low st) = g_ins st" "g_log (chain low st) = g_log st @ [Chain]"
  "g_mem (chain low st) = (g_mem st)(g_ptr st := 0x4C, g_ptr st + 1 := low)"
  by (simp_all add: chain_def)

lemma gen_pulse_ok:
  assumes good: "sk_good d (map shape tsk)" and spk: "len spk = 3" "cyc spk = 4"
  shows "\<exists>G l. gen_pulse spk mem org tsk d low = Some (Inr G) \<and>
           g_cyc G = CYC_MAX \<and> g_ptr G - org < GEN_MAX \<and>
           works (g_log G) = instructions tsk \<and>
           count_list (g_log G) Pull_sample = 1 \<and> count_list (g_log G) Store_sample = 1 \<and>
           g_loc G = Some l \<and> org < l \<and> l + 4 \<le> g_ptr G \<and> g_mem G (l - 1) = 0x8E \<and>
           g_mem G l = LO (g_ptr G) \<and> g_mem G (l + 1) = HI (g_ptr G) \<and>
           g_mem G (g_ptr G - 2) = 0x4C \<and> g_mem G (g_ptr G - 1) = low"
proof -
  let ?st2 = "pulse_init spk mem org tsk"
  from good obtain sz rest where
    sk: "sk_loop 4 ((d + 4) mod 256) (Skel 4 8 Pull (map shape tsk)) = Some (Skel 43 sz Done rest)"
    and rest: "\<not> sk_has rest" and sz: "sz + 2 < 43"
    by (auto simp: sk_good_def split: option.splits skel.splits)
  have "sk_rel org ?st2 (Skel 4 8 Pull (map shape tsk))"
    by (simp add: pulse_init_fields spk)
  from loop_rel[OF sk this] spk obtain r where
    r: "pulse_loop spk ((d + 4) mod 256) ?st2 = Some r" and rel: "sk_rel org r (Skel 43 sz Done rest)"
    by auto
  have "inv_log tsk ?st2" by (simp add: inv_log_def pulse_init_fields)
  then have il: "inv_log tsk r"
    by (rule pulse_loop_rule[OF r]) (rule inv_log_step)
  have "inv_loc org ?st2" by (simp add: inv_loc_def pulse_init_fields)
  then have "inv_loc org r"
    by (rule pulse_loop_rule[OF r]) (rule inv_loc_step)
  with rel obtain l where l: "g_loc r = Some l" "org < l" "l + 2 \<le> g_ptr r" "g_mem r (l - 1) = 0x8E"
    by (auto simp: inv_loc_def split: option.splits)
  from rel have f: "g_cyc r = 43" "g_ptr r = org + sz" "g_nxt r = Done" "map shape (g_ins r) = rest"
    by simp_all
  let ?c = "chain low r"
  let ?G = "?c\<lparr>g_mem := (g_mem ?c)(l := LO (g_ptr ?c), l + 1 := HI (g_ptr ?c))\<rparr>"
  have sl: "set_loc ?c = Inr ?G"
    using l by (simp add: set_loc_def)
  have fin: "finish org ?c = Inr ?G"
    unfolding finish_def sl using f sz by (simp add: CYC_MAX_def GEN_MAX_def)
  have hi: "\<not> has_ins (g_ins r)" using rest f by (simp add: has_ins_shape)
  have g: "gen_pulse spk mem org tsk d low = Some (Inr ?G)"
    unfolding gen_pulse_def using spk r by (simp add: fin f hi)
  have w: "works (g_log ?G) = instructions tsk"
    using il hi takeWhile_works[of "works (g_log r)" "g_ins r"]
    by (simp add: inv_log_def)
  show ?thesis
    apply (rule exI[of _ ?G], rule exI[of _ l])
    using g w il l f sz
    by (auto simp: inv_log_def CYC_MAX_def GEN_MAX_def)
qed


lemma put_list_facts:
  "put_list tag js st = (rest, st') \<Longrightarrow> g_ptr st = org + sz \<Longrightarrow>
   sk_list (map shape js) (g_cyc st, sz) = (c', sz') \<Longrightarrow>
   g_cyc st' = c' \<and> g_ptr st' = org + sz' \<and> sz \<le> sz' \<and> g_nxt st' = g_nxt st \<and>
   g_loc st' = g_loc st \<and> g_ins st' = g_ins st \<and> \<not> has_ins rest \<and>
   instructions js @ rest = js \<and>
   g_log st' = g_log st @ map tag (instructions js) \<and>
   (\<forall>a < g_ptr st. g_mem st' a = g_mem st a)"
proof (induction js arbitrary: st sz)
  case Nil
  then show ?case by (auto simp: instructions_def)
next
  case (Cons i js)
  show ?case
  proof (cases "opc i ! 0 \<noteq> 0")
    case True
    let ?st1 = "mark (tag i) (add_cyc (cyc i) (put_ins i st))"
    have 1: "put_list tag js ?st1 = (rest, st')" using Cons.prems(1) True by simp
    have 2: "g_ptr ?st1 = org + (sz + len i)" using Cons.prems(2) by simp
    have "shape i = (True, len i, cyc i)" using True by (simp add: shape_def)
    then have 3: "sk_list (map shape js) (g_cyc ?st1, sz + len i) = (c', sz')"
      using Cons.prems(3) by simp
    from Cons.IH[OF 1 2 3] show ?thesis
      using True Cons.prems(2) by (simp add: instructions_def put_ins_mem)
  next
    case False
    then have "shape i = (False, len i, cyc i)" by (simp add: shape_def)
    with False Cons.prems show ?thesis by (auto simp: instructions_def)
  qed
qed

lemma fill_nop_fields [simp]:
  "g_ptr (fill_nop st) = g_ptr st + 1" "g_cyc (fill_nop st) = (g_cyc st + 2) mod 256"
  "g_nxt (fill_nop st) = g_nxt st" "g_loc (fill_nop st) = g_loc st"
  "g_ins (fill_nop st) = g_ins st" "g_log (fill_nop st) = g_log st @ [Fill_nop]"
  "g_mem (fill_nop st) = (g_mem st)(g_ptr st := 0xEA)"
  by (simp_all add: fill_nop_def static_defs macro_defs)

lemma fill_bra_fields [simp]:
  "g_ptr (fill_bra st) = g_ptr st + 2" "g_cyc (fill_bra st) = (g_cyc st + 3) mod 256"
  "g_nxt (fill_bra st) = g_nxt st" "g_loc (fill_bra st) = g_loc st"
  "g_ins (fill_bra st) = g_ins st" "g_log (fill_bra st) = g_log st @ [Fill_bra]"
  "g_mem (fill_bra st) = (g_mem st)(g_ptr st := 0x80, g_ptr st + 1 := 0)"
  by (simp_all add: fill_bra_def static_defs macro_defs)

lemma fill_nops_facts:
  "g_ptr st = org + sz \<Longrightarrow> sk_fill (g_cyc st, sz) = (c', sz') \<Longrightarrow>
   g_cyc (fill_nops st) = c' \<and> g_ptr (fill_nops st) = org + sz' \<and> sz \<le> sz' \<and>
   g_loc (fill_nops st) = g_loc st \<and> g_ins (fill_nops st) = g_ins st \<and>
   works (g_log (fill_nops st)) = works (g_log st) \<and>
   (\<forall>a < g_ptr st. g_mem (fill_nops st) a = g_mem st a)"
proof (induction st arbitrary: sz rule: fill_nops.induct)
  case (1 st)
  show ?case
  proof (cases "g_cyc st + cyc jmp < CYC_MAX")
    case True
    then have c: "g_cyc st + 3 < 46" by (simp add: CYC_MAX_def)
    have 2: "g_ptr (fill_nop st) = org + (sz + 1)" using 1(2) by simp
    have 3: "sk_fill (g_cyc (fill_nop st), sz + 1) = (c', sz')"
      using 1(3) c by (subst (asm) sk_fill.simps) simp
    from 1(1)[OF True 2 3] show ?thesis
      using True by (subst (1 2 3 4 5 6) fill_nops.simps) simp
  next
    case False
    then have c: "\<not> g_cyc st + 3 < 46" by (simp add: CYC_MAX_def)
    have "(c', sz') = (g_cyc st, sz)"
      using 1(3) c by (subst (asm) sk_fill.simps) simp
    with 1(2) False show ?thesis by (subst (1 2 3 4 5 6) fill_nops.simps) auto
  qed
qed


lemma put_ins_eval:
  "len i = 1 \<Longrightarrow> put_ins i st = put (opc i ! 0) st"
  "len i = 3 \<Longrightarrow> put_ins i st = put (opc i ! 2) (put (opc i ! 1) (put (opc i ! 0) st))"
  by (simp_all add: put_ins_def upt_rec eval_nat_numeral)

lemma pulse_34_stx: "g_mem (snd (put_list Fixed pulse_34 st)) (g_ptr st + 9) = 0x8E"
  by (simp add: pulse_34_def macro_defs put_ins_eval add_cyc_def mark_def put_def)

lemma works_map [simp]: "works (map Fixed xs) = []" "works (map Work xs) = xs"
  by (induction xs) simp_all

lemma sk_pulse_34: "sk_list (map shape pulse_34) (0, 0) = (20, 12)"
  by (simp add: pulse_34_def macro_defs shape_def)

lemma gen_pulse_34_ok:
  assumes good: "sk34_good (map shape tsk)"
  shows "\<exists>G l. gen_pulse_34 mem org tsk low = Inr G \<and>
           g_cyc G = CYC_MAX \<and> g_ptr G - org < GEN_MAX \<and>
           works (g_log G) = instructions tsk \<and>
           g_loc G = Some l \<and> org < l \<and> l + 4 \<le> g_ptr G \<and> g_mem G (l - 1) = 0x8E \<and>
           g_mem G l = LO (g_ptr G) \<and> g_mem G (l + 1) = HI (g_ptr G) \<and>
           g_mem G (g_ptr G - 2) = 0x4C \<and> g_mem G (g_ptr G - 1) = low"
proof -
  let ?st0 = "\<lparr>g_mem = mem, g_ptr = org, g_cyc = 0, g_nxt = Pull, g_loc = None,
               g_ins = tsk, g_log = []\<rparr>"
  obtain ins_34 st1 where p1: "put_list Fixed pulse_34 ?st0 = (ins_34, st1)"
    by (cases "put_list Fixed pulse_34 ?st0")
  have f1: "g_cyc st1 = 20" "g_ptr st1 = org + 12" "g_ins st1 = tsk"
    "g_log st1 = map Fixed (instructions pulse_34)"
    using put_list_facts[OF p1, of org 0 20 12] sk_pulse_34 by simp_all
  have m1: "g_mem st1 (org + 9) = 0x8E"
    using pulse_34_stx[of "?st0"] p1 by simp
  let ?st2 = "st1\<lparr>g_loc := Some (g_ptr st1 - 2)\<rparr>"
  obtain rest st3 where p3: "put_list Work (g_ins ?st2) ?st2 = (rest, st3)"
    by (cases "put_list Work (g_ins ?st2) ?st2")
  obtain c3 sz3 where s3: "sk_list (map shape tsk) (20, 12) = (c3, sz3)"
    by (cases "sk_list (map shape tsk) (20, 12)")
  have f3: "g_cyc st3 = c3" "g_ptr st3 = org + sz3" "12 \<le> sz3" "g_loc st3 = Some (org + 10)"
    "g_log st3 = map Fixed (instructions pulse_34) @ map Work (instructions tsk)"
    "\<forall>a < org + 12. g_mem st3 a = g_mem st1 a"
    using put_list_facts[OF p3, of org 12 c3 sz3] s3 f1 by simp_all
  let ?st4 = "st3\<lparr>g_ins := rest\<rparr>"
  let ?st5 = "if (int (g_cyc ?st4) - int (cyc jmp)) mod 2 \<noteq> 0 then fill_bra ?st4 else ?st4"
  obtain c5 sz5 where
    k5: "(if (int c3 - 3) mod 2 \<noteq> 0 then ((c3 + 3) mod 256, sz3 + 2) else (c3, sz3)) = (c5, sz5)"
    by (cases "if (int c3 - 3) mod 2 \<noteq> 0 then ((c3 + 3) mod 256, sz3 + 2) else (c3, sz3)")
  from good s3 k5 obtain sz6 where s6: "sk_fill (c5, sz5) = (43, sz6)" and sz6: "sz6 + 2 < 43"
    by (auto simp: sk34_good_def split: prod.splits)
  have f5: "g_ptr ?st5 = org + sz5" "g_cyc ?st5 = c5" "g_loc ?st5 = Some (org + 10)"
    "works (g_log ?st5) = instructions tsk" "sz3 \<le> sz5"
    "\<forall>a < org + 12. g_mem ?st5 a = g_mem st1 a"
    using f3 k5 by (auto simp: comp_def split: if_splits)
  have "sk_fill (g_cyc ?st5, sz5) = (43, sz6)"
    using s6 f5(2) by simp
  from fill_nops_facts[OF f5(1) this]
  have f6': "g_cyc (fill_nops ?st5) = 43" "g_ptr (fill_nops ?st5) = org + sz6" "12 \<le> sz6"
    "g_loc (fill_nops ?st5) = Some (org + 10)"
    "works (g_log (fill_nops ?st5)) = instructions tsk"
    "g_mem (fill_nops ?st5) (org + 9) = 0x8E"
    using f5 f3(3) m1 by auto
  define r6 where "r6 = fill_nops ?st5"
  have f6: "g_cyc r6 = 43" "g_ptr r6 = org + sz6" "12 \<le> sz6" "g_loc r6 = Some (org + 10)"
    "works (g_log r6) = instructions tsk" "g_mem r6 (org + 9) = 0x8E"
    using f6' by (simp_all add: r6_def)
  let ?c = "chain low r6"
  let ?G = "?c\<lparr>g_mem := (g_mem ?c)(org + 10 := LO (g_ptr ?c), org + 10 + 1 := HI (g_ptr ?c))\<rparr>"
  have sl: "set_loc ?c = Inr ?G"
    using f6 by (simp add: set_loc_def)
  have fin: "finish org ?c = Inr ?G"
    unfolding finish_def sl using f6 sz6 by (simp add: CYC_MAX_def GEN_MAX_def)
  have g: "gen_pulse_34 mem org tsk low = Inr ?G"
    unfolding gen_pulse_34_def Let_def p1 prod.case using p3 fin by (simp add: r6_def)
  have "g_cyc ?G = CYC_MAX" "g_ptr ?G - org < GEN_MAX" "works (g_log ?G) = instructions tsk"
    "g_loc ?G = Some (org + 10)" "org + 10 + 4 \<le> g_ptr ?G" "g_mem ?G (org + 10 - 1) = 0x8E"
    "g_mem ?G (org + 10) = LO (g_ptr ?G)" "g_mem ?G (org + 10 + 1) = HI (g_ptr ?G)"
    "g_mem ?G (g_ptr ?G - 2) = 0x4C" "g_mem ?G (g_ptr ?G - 1) = low"
    using f6 sz6 by (simp_all add: CYC_MAX_def GEN_MAX_def add.commute)
  with g show ?thesis by (intro exI[of _ ?G] exI[of _ "org + 10"]) simp
qed


lemma sk_continue:
  "c + 3 < 46 \<Longrightarrow> sk_loop c_spk dty (Skel c sz n js) = sk_loop c_spk dty (sk_step c_spk dty (Skel c sz n js))"
  by (subst sk_loop.simps) simp

lemma sk_stop: "\<not> c + 3 < 46 \<Longrightarrow> sk_loop c_spk dty (Skel c sz n js) = Some (Skel c sz n js)"
  by (subst sk_loop.simps) simp

lemma sk_fill_continue: "c + 3 < 46 \<Longrightarrow> sk_fill (c, sz) = sk_fill ((c + 2) mod 256, sz + 1)"
  by (subst sk_fill.simps) simp

lemma sk_fill_stop: "\<not> c + 3 < 46 \<Longrightarrow> sk_fill (c, sz) = (c, sz)"
  by (subst sk_fill.simps) simp

lemmas sk_eval = sk_good_def sk34_good_def sk_continue sk_stop sk_fill_continue sk_fill_stop

lemma duties: "d < 36 \<Longrightarrow> d \<noteq> 34 \<Longrightarrow> d \<in> set duties"
  unfolding duties_def by (simp only: set_simps insert_iff empty_iff) arith

lemma all_goodD:
  assumes "all_good sh"
  shows "d < 36 \<Longrightarrow> d \<noteq> 34 \<Longrightarrow> sk_good d sh" and "sk34_good sh"
  using assms duties[of d] by (auto simp: all_good_def list_all_iff)

lemma shape_prolog_1:
  "map shape (prolog_1) =
    [(True, 3, 4), (True, 5, 3), (True, 2, 2), (True, 3, 4), (True, 2, 2), (True, 3, 4), (False, 0, 0)]"
  by (simp add: table_defs macro_defs shape_def)

lemma good_prolog_1: "all_good (map shape (prolog_1))"
  unfolding shape_prolog_1 all_good_def duties_def by (simp add: sk_eval)

lemma shape_prolog_2_eth:
  "map shape (prolog_2 True) =
    [(True, 3, 4), (True, 5, 3), (True, 2, 2), (True, 3, 4), (True, 3, 4), (True, 3, 4), (False, 0, 0)]"
  by (simp add: table_defs macro_defs shape_def)

lemma good_prolog_2_eth: "all_good (map shape (prolog_2 True))"
  unfolding shape_prolog_2_eth all_good_def duties_def by (simp add: sk_eval)

lemma shape_prolog_2_mock:
  "map shape (prolog_2 False) =
    [(True, 3, 4), (True, 2, 2), (True, 3, 4), (True, 3, 4), (True, 3, 4), (False, 0, 0)]"
  by (simp add: table_defs macro_defs shape_def)

lemma good_prolog_2_mock: "all_good (map shape (prolog_2 False))"
  unfolding shape_prolog_2_mock all_good_def duties_def by (simp add: sk_eval)

lemma shape_prolog_3:
  "map shape (prolog_3) =
    [(True, 2, 2), (True, 2, 2), (True, 3, 4), (True, 3, 4), (True, 2, 2), (False, 0, 0)]"
  by (simp add: table_defs macro_defs shape_def)

lemma good_prolog_3: "all_good (map shape (prolog_3))"
  unfolding shape_prolog_3 all_good_def duties_def by (simp add: sk_eval)

lemma shape_transf_1:
  "map shape (transf_1 have_eth) =
    [(True, 1, 2), (True, 3, 4), (True, 3, 5), (True, 1, 2), (False, 0, 0)]"
  by (simp add: table_defs macro_defs shape_def)

lemma good_transf_1: "all_good (map shape (transf_1 have_eth))"
  unfolding shape_transf_1 all_good_def duties_def by (simp add: sk_eval)

lemma shape_transf_2:
  "map shape (transf_2 have_eth) =
    [(True, 3, 4), (True, 3, 5), (True, 1, 2), (True, 3, 4), (True, 3, 5), (False, 0, 0)]"
  by (simp add: table_defs macro_defs shape_def)

lemma good_transf_2: "all_good (map shape (transf_2 have_eth))"
  unfolding shape_transf_2 all_good_def duties_def by (simp add: sk_eval)

lemma shape_epilog_1:
  "map shape (epilog_1) =
    [(True, 2, 2), (True, 3, 4), (True, 2, 2), (True, 3, 4), (True, 3, 4), (True, 3, 4), (False, 0, 0)]"
  by (simp add: table_defs macro_defs shape_def)

lemma good_epilog_1: "all_good (map shape (epilog_1))"
  unfolding shape_epilog_1 all_good_def duties_def by (simp add: sk_eval)

lemma shape_epilog_2:
  "map shape (epilog_2) =
    [(True, 1, 2), (True, 3, 4), (True, 2, 2), (True, 3, 4), (True, 2, 2), (True, 3, 4), (False, 0, 0)]"
  by (simp add: table_defs macro_defs shape_def)

lemma good_epilog_2: "all_good (map shape (epilog_2))"
  unfolding shape_epilog_2 all_good_def duties_def by (simp add: sk_eval)

lemma shape_init_vis:
  "map shape (init_vis) =
    [(True, 1, 4), (True, 2, 3), (True, 2, 5), (True, 1, 2), (True, 3, 5), (True, 2, 2), (False, 0, 0)]"
  by (simp add: table_defs macro_defs shape_def)

lemma good_init_vis: "all_good (map shape (init_vis))"
  unfolding shape_init_vis all_good_def duties_def by (simp add: sk_eval)

lemma shape_visual_1:
  "map shape (visual_1) =
    [(True, 2, 5), (True, 3, 5), (True, 3, 5), (True, 3, 5), (False, 0, 0)]"
  by (simp add: table_defs macro_defs shape_def)

lemma good_visual_1: "all_good (map shape (visual_1))"
  unfolding shape_visual_1 all_good_def duties_def by (simp add: sk_eval)

lemma shape_visual_2:
  "map shape (visual_2) =
    [(True, 3, 5), (True, 3, 5), (True, 3, 5), (True, 1, 2), (False, 0, 0)]"
  by (simp add: table_defs macro_defs shape_def)

lemma good_visual_2: "all_good (map shape (visual_2))"
  unfolding shape_visual_2 all_good_def duties_def by (simp add: sk_eval)

lemma good_tables: "all_good (map shape (task_table have_eth t))"
  by (cases t; cases have_eth)
    (simp_all add: good_prolog_1 good_prolog_2_eth good_prolog_2_mock good_prolog_3 good_transf_1
      good_transf_2 good_epilog_1 good_epilog_2 good_init_vis good_visual_1 good_visual_2)

lemma fix_eth_shape: "map shape (fix_eth tsk ofs) = map shape tsk"
  by (induction tsk) (simp_all add: shape_def)

lemma wf_start: "wf_tables have_eth (start have_eth a m)"
  by (simp add: wf_tables_def start_def spkr_a0_def STA_A_def)

lemma wf_prepare: "wf_tables have_eth st \<Longrightarrow> wf_tables have_eth (prepare t_out st)"
  by (simp add: wf_tables_def prepare_def Let_def)

lemma wf_fix_slot: "wf_tables have_eth st \<Longrightarrow> wf_tables have_eth (fix_slot e_ofs st s g)"
  by (simp add: wf_tables_def fix_slot_def Let_def fix_eth_shape)

lemma wf_fold:
  "wf_tables have_eth st \<Longrightarrow>
   wf_tables have_eth (fold (\<lambda>(s', g') st'. fix_slot e_ofs st' s' g') ps st)"
  by (induction ps arbitrary: st) (auto simp: wf_fix_slot)

lemma wf_slot_state: "wf_tables have_eth (slot_state e_ini t_out (start have_eth a m) s g)"
  unfolding slot_state_def by (intro wf_fix_slot wf_fold wf_prepare wf_start)

lemma wf_aux [simp]: "wf_tables have_eth (st\<lparr>aux := a\<rparr>) = wf_tables have_eth st"
  by (simp add: wf_tables_def)

lemma gen_org_bound: "s < SET_NUM \<Longrightarrow> g < GEN_NUM \<Longrightarrow> d < DTY_MAX \<Longrightarrow> gen_org s g d + 43 < 65536"
  by (simp add: gen_org_def SET_NUM_def GEN_NUM_def DTY_MAX_def PLAY_BUF_def GEN_MAX_def)

lemma read16_eq:
  assumes "mem l = LO p" and "mem (l + 1) = HI p" and "p < 65536"
  shows "read16 mem l = p"
  using assms read16_LO_HI[of p] by (simp add: read16_def)

lemma call_ok:
  assumes wf: "wf_tables have_eth st" and s: "s < SET_NUM" and g: "g < GEN_NUM" and d: "d < DTY_MAX"
  shows "\<exists>G l. run_call st (dispatch st s g d) = Some (Inr G) \<and>
           g_cyc G = CYC_MAX \<and> gen_org s g d \<le> g_ptr G \<and> g_ptr G - gen_org s g d < GEN_MAX \<and>
           works (g_log G) = instructions (tasks st (ins (flow ! s ! g))) \<and>
           (d \<noteq> 34 \<longrightarrow> count_list (g_log G) Pull_sample = 1 \<and>
                        count_list (g_log G) Store_sample = 1) \<and>
           g_loc G = Some l \<and> l + 4 \<le> g_ptr G \<and> g_mem G (l - 1) = 0x8E \<and>
           read16 (g_mem G) l = g_ptr G \<and>
           g_mem G (g_ptr G - 2) = 0x4C \<and>
           g_mem G (g_ptr G - 1) =
             of_nat (next_slot s g * GEN_MAX + (if d = 34 then 0 else GEN_END))"
proof -
  let ?tsk = "tasks st (ins (flow ! s ! g))"
  let ?org = "gen_org s g d"
  have good: "all_good (map shape ?tsk)"
    using wf good_tables[of have_eth "ins (flow ! s ! g)"] by (simp add: wf_tables_def)
  have spk: "len (spkr_a st) = 3" "cyc (spkr_a st) = 4"
    using wf by (simp_all add: wf_tables_def)
  have b: "?org + 43 < 65536" using gen_org_bound[OF s g d] .
  show ?thesis
  proof (cases "d = 34")
    case True
    let ?low = "of_nat (next_slot s g * GEN_MAX) :: 8 word"
    have c: "run_call st (dispatch st s g d) = Some (gen_pulse_34 (aux st) ?org ?tsk ?low)"
      using True by (simp add: dispatch_def Let_def gen_org_def next_slot_def)
    from gen_pulse_34_ok[OF all_goodD(2)[OF good], of "aux st" ?org ?low]
    obtain G l where G: "gen_pulse_34 (aux st) ?org ?tsk ?low = Inr G"
      "g_cyc G = CYC_MAX" "g_ptr G - ?org < GEN_MAX" "works (g_log G) = instructions ?tsk"
      "g_loc G = Some l" "?org < l" "l + 4 \<le> g_ptr G" "g_mem G (l - 1) = 0x8E"
      "g_mem G l = LO (g_ptr G)" "g_mem G (l + 1) = HI (g_ptr G)"
      "g_mem G (g_ptr G - 2) = 0x4C" "g_mem G (g_ptr G - 1) = ?low"
      by blast
    have p: "g_ptr G < 65536" using G(3,6,7) b by (simp add: GEN_MAX_def)
    have r: "read16 (g_mem G) l = g_ptr G" using read16_eq[OF G(9,10) p] .
    show ?thesis
      apply (rule exI[of _ G], rule exI[of _ l])
      using c G r True by simp
  next
    case False
    let ?low = "of_nat (next_slot s g * GEN_MAX + GEN_END) :: 8 word"
    have c: "run_call st (dispatch st s g d) = gen_pulse (spkr_a st) (aux st) ?org ?tsk d ?low"
      using False by (simp add: dispatch_def Let_def gen_org_def next_slot_def)
    have "d < 36" using d by (simp add: DTY_MAX_def)
    from gen_pulse_ok[OF all_goodD(1)[OF good this False] spk, of "aux st" ?org ?low]
    obtain G l where G: "gen_pulse (spkr_a st) (aux st) ?org ?tsk d ?low = Some (Inr G)"
      "g_cyc G = CYC_MAX" "g_ptr G - ?org < GEN_MAX" "works (g_log G) = instructions ?tsk"
      "count_list (g_log G) Pull_sample = 1" "count_list (g_log G) Store_sample = 1"
      "g_loc G = Some l" "?org < l" "l + 4 \<le> g_ptr G" "g_mem G (l - 1) = 0x8E"
      "g_mem G l = LO (g_ptr G)" "g_mem G (l + 1) = HI (g_ptr G)"
      "g_mem G (g_ptr G - 2) = 0x4C" "g_mem G (g_ptr G - 1) = ?low"
      by blast
    have p: "g_ptr G < 65536" using G(3,8,9) b by (simp add: GEN_MAX_def)
    have r: "read16 (g_mem G) l = g_ptr G" using read16_eq[OF G(11,12) p] .
    show ?thesis
      apply (rule exI[of _ G], rule exI[of _ l])
      using c G r False by simp
  qed
qed

subsection \<open>The memory image\<close>

lemma holds_Nil [simp]: "holds mem org []"
  by (simp add: holds_def)

lemma holds_Cons:
  "holds mem org (x # xs) = ((\<forall>b. x = Some b \<longrightarrow> mem org = b) \<and> holds mem (Suc org) xs)"
  unfolding holds_def
  by (auto simp: less_Suc_eq_0_disj nth_Cons')

lemma holds_append:
  "holds mem org (bs @ cs) = (holds mem org bs \<and> holds mem (org + length bs) cs)"
  by (induction bs arbitrary: org) (auto simp: holds_Cons)

lemma holds_cong:
  "\<forall>a < p. mem' a = mem a \<Longrightarrow> org + length bs \<le> p \<Longrightarrow> holds mem' org bs = holds mem org bs"
  by (auto simp: holds_def)

lemma holds_upd:
  "org + length bs \<le> a \<Longrightarrow> holds (mem(a := v)) org bs = holds mem org bs"
  by (auto simp: holds_def)

lemma holds_imp_but: "holds mem org bs \<Longrightarrow> holds_but (mem(l := x, l + 1 := y)) org bs l"
  by (auto simp: holds_def holds_but_def)

lemma image_snoc [simp]: "image spk low (ps @ [p]) = image spk low ps @ code spk low p"
  by (simp add: image_def)

lemma holds_fold_put:
  "holds (g_mem (fold (\<lambda>pos. put (f pos)) xs st)) (g_ptr st) (map (\<lambda>pos. Some (f pos)) xs)"
proof (induction xs arbitrary: st)
  case Nil
  show ?case by simp
next
  case (Cons x xs)
  have "g_mem (fold (\<lambda>pos. put (f pos)) xs (put (f x) st)) (g_ptr st) = f x"
    using fold_put_mem[of "g_ptr st" "put (f x) st" f xs] by simp
  with Cons[of "put (f x) st"] show ?case by (simp add: holds_Cons)
qed

lemma holds_put_ins:
  "holds (g_mem (put_ins i st)) (g_ptr st) (map (\<lambda>pos. Some (opc i ! pos)) [0..<len i])"
  unfolding put_ins_def by (rule holds_fold_put)

lemma holds_put_ins_old:
  "org + length bs \<le> g_ptr st \<Longrightarrow> holds (g_mem (put_ins i st)) org bs = holds (g_mem st) org bs"
  by (rule holds_cong[of "g_ptr st"]) (simp_all add: put_ins_mem)

lemma inv_img_work:
  assumes "inv_img spk low org st" and "tag_work = Work \<or> tag_work = Fixed"
  shows "inv_img spk low org (mark (tag_work i) (add_cyc c (put_ins i st)))"
  using assms holds_put_ins[of i st]
  by (auto simp: inv_img_def holds_append holds_put_ins_old)

lemma inv_img_step:
  assumes "inv_img spk low org st"
  shows "inv_img spk low org (pulse_step spk dty st)"
proof (rule pulse_step_cases)
  show "inv_img spk low org (work st)"
    using inv_img_work[OF assms, of Work "hd (g_ins st)" "cyc (hd (g_ins st))"]
    by (simp add: work_def Let_def inv_img_def)
qed (use assms in \<open>simp_all add: inv_img_def branch_defs Let_def holds_append holds_Cons holds_upd\<close>)


lemma inv_img_init: "inv_img spk low org (pulse_init spk mem org tsk)"
  by (simp add: inv_img_def pulse_init_def put_spkr_a_def Let_def image_def holds_Cons)

lemma inv_img_chain: "inv_img spk low org st \<Longrightarrow> inv_img spk low org (chain low st)"
  by (simp add: inv_img_def holds_append holds_Cons holds_upd)

lemma inv_img_fill_nop: "inv_img spk low org st \<Longrightarrow> inv_img spk low org (fill_nop st)"
  by (simp add: inv_img_def fill_nop_def holds_append holds_Cons holds_upd)

lemma inv_img_fill_bra: "inv_img spk low org st \<Longrightarrow> inv_img spk low org (fill_bra st)"
  by (simp add: inv_img_def fill_bra_def holds_append holds_Cons holds_upd)

lemma inv_img_fill_nops: "inv_img spk low org st \<Longrightarrow> inv_img spk low org (fill_nops st)"
proof (induction st rule: fill_nops.induct)
  case (1 st)
  show ?case
  proof (cases "g_cyc st + cyc jmp < CYC_MAX")
    case True
    with 1 show ?thesis by (subst fill_nops.simps) (simp add: inv_img_fill_nop)
  next
    case False
    with 1 show ?thesis by (subst fill_nops.simps) simp
  qed
qed

lemma inv_img_put_list:
  "put_list tag_work js st = (rest, st') \<Longrightarrow> tag_work = Work \<or> tag_work = Fixed \<Longrightarrow>
   inv_img spk low org st \<Longrightarrow> inv_img spk low org st'"
proof (induction js arbitrary: st)
  case Nil
  then show ?case by simp
next
  case (Cons i js)
  show ?case
  proof (cases "opc i ! 0 \<noteq> 0")
    case True
    let ?st1 = "mark (tag_work i) (add_cyc (cyc i) (put_ins i st))"
    have "put_list tag_work js ?st1 = (rest, st')" using Cons.prems(1) True by simp
    moreover have "inv_img spk low org ?st1" using inv_img_work[OF Cons.prems(3,2)] .
    ultimately show ?thesis using Cons.IH Cons.prems(2) by blast
  next
    case False
    with Cons.prems show ?thesis by simp
  qed
qed

lemma inv_img_loc [simp]: "inv_img spk low org (st\<lparr>g_loc := x\<rparr>) = inv_img spk low org st"
  "inv_img spk low org (st\<lparr>g_ins := y\<rparr>) = inv_img spk low org st"
  by (simp_all add: inv_img_def)

lemma set_loc_img:
  assumes "set_loc st = Inr G" and "inv_img spk low org st"
  shows "\<exists>l. g_loc G = Some l \<and> g_ptr G = org + length (image spk low (g_log G)) \<and>
           holds_but (g_mem G) org (image spk low (g_log G)) l"
proof -
  from assms(1) obtain l where l: "g_loc st = Some l"
    and G: "G = st\<lparr>g_mem := (g_mem st)(l := LO (g_ptr st), l + 1 := HI (g_ptr st))\<rparr>"
    by (auto simp: set_loc_def split: option.splits)
  from assms(2) have "holds (g_mem st) org (image spk low (g_log st))"
    and "g_ptr st = org + length (image spk low (g_log st))"
    by (simp_all add: inv_img_def)
  with l G holds_imp_but[of "g_mem st" org "image spk low (g_log st)" l] show ?thesis
    by simp
qed

lemma finish_img:
  assumes "finish org st = Inr G" and "inv_img spk low org st"
  shows "\<exists>l. g_loc G = Some l \<and> g_ptr G = org + length (image spk low (g_log G)) \<and>
           holds_but (g_mem G) org (image spk low (g_log G)) l"
proof -
  from assms(1) have "set_loc st = Inr G"
    by (auto simp: finish_def split: sum.splits if_splits)
  from set_loc_img[OF this assms(2)] show ?thesis .
qed

lemma gen_pulse_img:
  assumes "gen_pulse spk mem org tsk d low = Some (Inr G)"
  shows "\<exists>l. g_loc G = Some l \<and> g_ptr G = org + length (image spk low (g_log G)) \<and>
           holds_but (g_mem G) org (image spk low (g_log G)) l"
proof -
  from assms obtain r where r: "pulse_loop spk ((d + cyc spk) mod 256) (pulse_init spk mem org tsk) = Some r"
    and f: "finish org (chain low r) = Inr G"
    by (auto simp: gen_pulse_def split: if_splits option.splits sum.splits)
  have "inv_img spk low org r"
    by (rule pulse_loop_rule[OF r, of "inv_img spk low org"]) (simp_all add: inv_img_init inv_img_step)
  from finish_img[OF f inv_img_chain[OF this]] show ?thesis .
qed

lemma gen_pulse_34_img:
  assumes "gen_pulse_34 mem org tsk low = Inr G"
  shows "\<exists>l. g_loc G = Some l \<and> g_ptr G = org + length (image spk low (g_log G)) \<and>
           holds_but (g_mem G) org (image spk low (g_log G)) l"
proof -
  let ?st0 = "\<lparr>g_mem = mem, g_ptr = org, g_cyc = 0, g_nxt = Pull, g_loc = None,
               g_ins = tsk, g_log = []\<rparr>"
  obtain ins_34 st1 where p1: "put_list Fixed pulse_34 ?st0 = (ins_34, st1)"
    by (cases "put_list Fixed pulse_34 ?st0")
  let ?st2 = "st1\<lparr>g_loc := Some (g_ptr st1 - 2)\<rparr>"
  obtain rest st3 where p3: "put_list Work (g_ins ?st2) ?st2 = (rest, st3)"
    by (cases "put_list Work (g_ins ?st2) ?st2")
  let ?st4 = "st3\<lparr>g_ins := rest\<rparr>"
  let ?st5 = "if (int (g_cyc ?st4) - int (cyc jmp)) mod 2 \<noteq> 0 then fill_bra ?st4 else ?st4"
  have f: "finish org (chain low (fill_nops ?st5)) = Inr G"
    using assms p3 unfolding gen_pulse_34_def Let_def p1 prod.case by simp
  have "inv_img spk low org ?st0" by (simp add: inv_img_def image_def)
  from inv_img_put_list[OF p1 _ this] have "inv_img spk low org ?st2" by simp
  from inv_img_put_list[OF p3 _ this] have "inv_img spk low org ?st4" by simp
  then have "inv_img spk low org ?st5" by (simp add: inv_img_fill_bra)
  then have "inv_img spk low org (chain low (fill_nops ?st5))"
    by (intro inv_img_chain inv_img_fill_nops)
  from finish_img[OF f this] show ?thesis .
qed

lemma log_step: "\<exists>x. g_log (pulse_step spk dty st) = g_log st @ [x]"
  by (rule pulse_step_cases) (simp_all add: branch_defs Let_def)

lemma duty_1_stretched:
  assumes "gen_pulse spk mem org tsk 1 low = Some (Inr G)" and "cyc spk = 4"
  shows "take 3 (g_log G) = [Early_end, Duty_start, Duty_end_stretched]"
proof -
  let ?I = "\<lambda>s::pulse. \<exists>rest. g_log s = [Early_end, Duty_start, Duty_end_stretched] @ rest"
  let ?st = "pulse_init spk mem org tsk"
  from assms obtain r where r: "pulse_loop spk 5 ?st = Some r"
    and f: "finish org (chain low r) = Inr G"
    by (auto simp: gen_pulse_def split: if_splits option.splits sum.splits)
  have s1: "pulse_step spk 5 ?st = duty_end_stretched ?st"
    using assms(2) by (simp add: pulse_step_def pulse_init_fields)
  have "pulse_loop spk 5 ?st = pulse_loop spk 5 (duty_end_stretched ?st)"
    using assms(2) by (subst pulse_loop.simps) (simp add: s1 pulse_init_fields CYC_MAX_def)
  with r have r': "pulse_loop spk 5 (duty_end_stretched ?st) = Some r" by simp
  have "?I r"
  proof (rule pulse_loop_rule[OF r', of ?I])
    show "?I (duty_end_stretched ?st)"
      by (simp add: duty_end_stretched_def pulse_init_fields)
  next
    fix s assume "?I s"
    with log_step[of spk 5 s] show "?I (pulse_step spk 5 s)" by auto
  qed
  moreover from f have "g_log G = g_log r @ [Chain]"
    by (auto simp: finish_def set_loc_def split: sum.splits option.splits if_splits)
  ultimately show ?thesis by auto
qed

subsection \<open>The cycles of the placements\<close>

lemma cost_simps [simp]:
  "cost spk [] = 0" "cost spk (p # ps) = cycles spk p + cost spk ps"
  "cost spk (ps @ qs) = cost spk ps + cost spk qs"
  by (simp_all add: cost_def)

lemma light_cyc: "light (map shape tsk) \<Longrightarrow> i \<in> set tsk \<Longrightarrow> cyc i < 200"
proof (induction tsk)
  case Nil
  then show ?case by simp
next
  case (Cons j tsk)
  then show ?case by (auto simp: light_def shape_def)
qed

lemma light_sum: "light (map shape tsk) \<Longrightarrow> sum_list (map cyc (instructions tsk)) < 200"
proof -
  have "sum_list (map cyc (instructions tsk)) \<le> sum_list (map (\<lambda>j. snd (snd j)) (map shape tsk))"
    by (induction tsk) (simp_all add: instructions_def shape_def)
  then show "light (map shape tsk) \<Longrightarrow> ?thesis" by (simp add: light_def)
qed

lemma light_tables: "light (map shape (task_table have_eth t))"
  by (cases t; cases have_eth)
    (simp_all add: light_def shape_prolog_1 shape_prolog_2_eth shape_prolog_2_mock shape_prolog_3
      shape_transf_1 shape_transf_2 shape_epilog_1 shape_epilog_2 shape_init_vis shape_visual_1
      shape_visual_2)

lemma inv_cost_step:
  assumes "inv_cost spk st" and "g_cyc st + cyc jmp < CYC_MAX" and "cyc spk = 4"
  shows "inv_cost spk (pulse_step spk dty st)"
proof (rule pulse_step_cases)
  assume "has_ins (g_ins st)"
  then obtain i rest where "g_ins st = i # rest" using has_ins_Cons by blast
  with assms show "inv_cost spk (work st)"
    by (auto simp: inv_cost_def work_def CYC_MAX_def)
qed (use assms in \<open>auto simp: inv_cost_def branch_defs Let_def CYC_MAX_def\<close>)

lemma cyc_43:
  assumes "(x + 3) mod 256 = (46::nat)" and "x < 256"
  shows "x = 43"
proof -
  from assms(2) have "x + 3 < 256 \<or> x = 253 \<or> x = 254 \<or> x = 255" by arith
  with assms(1) show ?thesis by (elim disjE) simp_all
qed

lemma gen_pulse_cost:
  assumes "gen_pulse spk mem org tsk d low = Some (Inr G)" and "cyc spk = 4"
    and "light (map shape tsk)"
  shows "\<exists>ps. g_log G = Early_end # ps \<and> cost spk ps = CYC_MAX \<and> g_cyc G = CYC_MAX"
proof -
  let ?st = "pulse_init spk mem org tsk"
  from assms(1) obtain r where
    r: "pulse_loop spk ((d + cyc spk) mod 256) ?st = Some r"
    and f: "finish org (chain low r) = Inr G"
    by (auto simp: gen_pulse_def split: if_splits option.splits sum.splits)
  have "inv_cost spk ?st"
    using assms(2) light_cyc[OF assms(3)] by (simp add: inv_cost_def pulse_init_fields)
  with pulse_loop_rule_aux[OF r, of "inv_cost spk"] inv_cost_step[OF _ _ assms(2)]
  have i: "inv_cost spk r" by blast
  from f have G: "g_log G = g_log r @ [Chain]" "g_cyc G = (g_cyc r + 3) mod 256"
    "g_cyc G = CYC_MAX"
    by (auto simp: finish_def set_loc_def split: sum.splits option.splits if_splits)
  from i have "g_cyc r < 256" by (simp add: inv_cost_def)
  with G(2,3) have "g_cyc r = 43"
    using cyc_43[of "g_cyc r"] by (simp add: CYC_MAX_def)
  with i G assms(2) show ?thesis by (auto simp: inv_cost_def CYC_MAX_def)
qed

lemma put_list_cost:
  "put_list tag js st = (rest, st') \<Longrightarrow> tag = Work \<or> tag = Fixed \<Longrightarrow>
   cost spk (g_log st') = cost spk (g_log st) + sum_list (map cyc (instructions js)) \<and>
   g_cyc st' mod 256 = (g_cyc st + sum_list (map cyc (instructions js))) mod 256"
proof (induction js arbitrary: st)
  case Nil
  then show ?case by (simp add: instructions_def)
next
  case (Cons i js)
  show ?case
  proof (cases "opc i ! 0 \<noteq> 0")
    case True
    let ?st1 = "mark (tag i) (add_cyc (cyc i) (put_ins i st))"
    let ?S = "sum_list (map cyc (instructions js))"
    have "put_list tag js ?st1 = (rest, st')" using Cons.prems(1) True by simp
    from Cons.IH[OF this Cons.prems(2)]
    have ih: "cost spk (g_log st') = cost spk (g_log ?st1) + ?S"
      "g_cyc st' mod 256 = (g_cyc ?st1 + ?S) mod 256"
      by simp_all
    have c: "cycles spk (tag i) = cyc i" using Cons.prems(2) by auto
    have i: "instructions (i # js) = i # instructions js"
      using True by (simp add: instructions_def)
    have "(g_cyc ?st1 + ?S) mod 256 = (g_cyc st + cyc i + ?S) mod 256"
      by (simp add: mod_add_left_eq)
    with ih c show ?thesis unfolding i by (simp add: add.assoc)
  next
    case False
    then have "instructions (i # js) = []" by (simp add: instructions_def)
    moreover from False Cons.prems(1) have "st' = st" by simp
    ultimately show ?thesis by simp
  qed
qed

lemma fill_nops_cost:
  "cost spk (g_log st) = g_cyc st \<Longrightarrow> g_cyc st < 250 \<Longrightarrow>
   cost spk (g_log (fill_nops st)) = g_cyc (fill_nops st) \<and> g_cyc (fill_nops st) < 250 \<and>
   (\<exists>qs. g_log (fill_nops st) = g_log st @ qs)"
proof (induction st rule: fill_nops.induct)
  case (1 st)
  show ?case
  proof (cases "g_cyc st + cyc jmp < CYC_MAX")
    case True
    then have c: "g_cyc st + 3 < 46" by (simp add: CYC_MAX_def)
    have "cost spk (g_log (fill_nop st)) = g_cyc (fill_nop st)" "g_cyc (fill_nop st) < 250"
      using 1(2) c by simp_all
    from 1(1)[OF True this] show ?thesis
      using True by (subst (1 2 3 4) fill_nops.simps) auto
  next
    case False
    with 1 show ?thesis by (subst (1 2 3 4) fill_nops.simps) simp
  qed
qed

lemma pulse_34_instr:
  "instructions pulse_34 = [STA_A 0xC030, NOP, NOP, STA_A 0xC030, PLX, STX_A 0x0000]"
  by (simp add: instructions_def pulse_34_def macro_defs)

lemma pulse_34_cyc: "sum_list (map cyc (instructions pulse_34)) = 20"
  by (simp add: instructions_def pulse_34_def macro_defs)

lemma gen_pulse_34_cost:
  assumes "gen_pulse_34 mem org tsk low = Inr G" and "light (map shape tsk)"
  shows "\<exists>ps. g_log G = Fixed (STA_A 0xC030) # Fixed NOP # Fixed NOP # ps \<and>
           cost spk ps = 38 \<and> g_cyc G = CYC_MAX"
proof -
  let ?st0 = "\<lparr>g_mem = mem, g_ptr = org, g_cyc = 0, g_nxt = Pull, g_loc = None,
               g_ins = tsk, g_log = []\<rparr>"
  obtain ins_34 st1 where p1: "put_list Fixed pulse_34 ?st0 = (ins_34, st1)"
    by (cases "put_list Fixed pulse_34 ?st0")
  let ?st2 = "st1\<lparr>g_loc := Some (g_ptr st1 - 2)\<rparr>"
  obtain rest st3 where p3: "put_list Work (g_ins ?st2) ?st2 = (rest, st3)"
    by (cases "put_list Work (g_ins ?st2) ?st2")
  let ?st4 = "st3\<lparr>g_ins := rest\<rparr>"
  let ?st5 = "if (int (g_cyc ?st4) - int (cyc jmp)) mod 2 \<noteq> 0 then fill_bra ?st4 else ?st4"
  have f: "finish org (chain low (fill_nops ?st5)) = Inr G"
    using assms(1) p3 unfolding gen_pulse_34_def Let_def p1 prod.case by simp
  have f1: "cost spk (g_log st1) = 20" "g_cyc st1 = 20" "g_ins st1 = tsk"
    "g_log st1 = map Fixed (instructions pulse_34)"
    using put_list_cost[OF p1, of spk] put_list_facts[OF p1, of org 0 20 12] sk_pulse_34
    by (simp_all add: pulse_34_cyc)
  obtain c3 sz3 where s3: "sk_list (map shape tsk) (20, 0) = (c3, sz3)"
    by (cases "sk_list (map shape tsk) (20, 0)")
  from put_list_facts[OF p3, of "g_ptr st1" 0 c3 sz3] s3 f1
  have l3: "g_log st3 = g_log st1 @ map Work (instructions tsk)" "g_cyc st3 = c3" by simp_all
  have "c3 < 256"
  proof -
    have "\<And>c sz c' sz'. sk_list sh (c, sz) = (c', sz') \<Longrightarrow> c < 256 \<Longrightarrow> c' < 256" for sh
      by (induction sh) (auto split: if_splits)
    from this[OF s3] show ?thesis by simp
  qed
  let ?S = "sum_list (map cyc (instructions tsk))"
  have S: "?S < 200" using light_sum[OF assms(2)] .
  have f3: "cost spk (g_log st3) = 20 + ?S" "g_cyc st3 = 20 + ?S"
    using put_list_cost[OF p3, of spk] f1 S l3(2) \<open>c3 < 256\<close> by simp_all
  have f5: "cost spk (g_log ?st5) = g_cyc ?st5" "g_cyc ?st5 < 250"
    "\<exists>qs. g_log ?st5 = g_log st1 @ qs"
    using f3 S l3(1) by auto
  from fill_nops_cost[OF f5(1,2)] f5(3)
  have f6: "cost spk (g_log (fill_nops ?st5)) = g_cyc (fill_nops ?st5)"
    "g_cyc (fill_nops ?st5) < 250" "\<exists>qs. g_log (fill_nops ?st5) = g_log st1 @ qs"
    by auto
  define r6 where "r6 = fill_nops ?st5"
  from f6 have r6: "cost spk (g_log r6) = g_cyc r6" "g_cyc r6 < 250"
    "\<exists>qs. g_log r6 = g_log st1 @ qs"
    by (simp_all add: r6_def)
  from f have G: "g_log G = g_log r6 @ [Chain]" "g_cyc G = (g_cyc r6 + 3) mod 256"
    "g_cyc G = CYC_MAX"
    by (auto simp: r6_def finish_def set_loc_def split: sum.splits option.splits if_splits)
  from r6(2) G(2,3) have c: "g_cyc r6 = 43"
    using cyc_43[of "g_cyc r6"] by (simp add: CYC_MAX_def)
  from r6(3) obtain qs where qs: "g_log r6 = g_log st1 @ qs" by blast
  with r6(1) c f1 have "cost spk (g_log st1) + cost spk qs = 43" by simp
  with f1(1) have "cost spk qs = 23" by simp
  with qs G f1(4) show ?thesis
    by (simp add: pulse_34_instr macro_defs)
qed

lemma call_cost:
  assumes wf: "wf_tables have_eth st"
    and c: "run_call st (dispatch st s g d) = Some (Inr G)"
  shows "length (image (spkr_a st) low (take (early d) (g_log G))) = GEN_END \<and>
         cost (spkr_a st) (take (early d) (g_log G)) = 8 \<and>
         cost (spkr_a st) (drop (early d) (g_log G)) = (if d = 34 then 38 else CYC_MAX)"
proof -
  let ?tsk = "tasks st (ins (flow ! s ! g))"
  have l: "light (map shape ?tsk)"
    using wf light_tables[of have_eth "ins (flow ! s ! g)"] by (simp add: wf_tables_def)
  have spk: "cyc (spkr_a st) = 4" using wf by (simp add: wf_tables_def)
  show ?thesis
  proof (cases "d = 34")
    case True
    with c obtain p low' where "gen_pulse_34 (aux st) p ?tsk low' = Inr G"
      by (simp add: dispatch_def Let_def)
    from gen_pulse_34_cost[OF this l, of "spkr_a st"] True show ?thesis
      by (auto simp: early_def image_def macro_defs GEN_END_def)
  next
    case False
    with c obtain p low' where "gen_pulse (spkr_a st) (aux st) p ?tsk d low' = Some (Inr G)"
      by (simp add: dispatch_def Let_def)
    from gen_pulse_cost[OF this spk l] False spk show ?thesis
      by (auto simp: early_def image_def GEN_END_def)
  qed
qed

lemma call_img:
  assumes "run_call st (dispatch st s g d) = Some (Inr G)"
  shows "\<exists>l. g_loc G = Some l \<and>
           g_ptr G = gen_org s g d +
             length (image (spkr_a st)
                      (of_nat (next_slot s g * GEN_MAX + (if d = 34 then 0 else GEN_END)))
                      (g_log G)) \<and>
           holds_but (g_mem G) (gen_org s g d)
             (image (spkr_a st)
                (of_nat (next_slot s g * GEN_MAX + (if d = 34 then 0 else GEN_END)))
                (g_log G)) l"
proof (cases "d = 34")
  case True
  with assms have "gen_pulse_34 (aux st) (gen_org s g d) (tasks st (ins (flow ! s ! g)))
      (of_nat (next_slot s g * GEN_MAX)) = Inr G"
    by (simp add: dispatch_def Let_def gen_org_def next_slot_def)
  from gen_pulse_34_img[OF this, of "spkr_a st"] True show ?thesis by simp
next
  case False
  with assms have "gen_pulse (spkr_a st) (aux st) (gen_org s g d) (tasks st (ins (flow ! s ! g))) d
      (of_nat (next_slot s g * GEN_MAX + GEN_END)) = Some (Inr G)"
    by (simp add: dispatch_def Let_def gen_org_def next_slot_def)
  from gen_pulse_img[OF this] False show ?thesis by simp
qed

lemma cost_take_drop: "cost spk ps = cost spk (take n ps) + cost spk (drop n ps)"
  using cost_simps(3)[of spk "take n ps" "drop n ps"] by simp

lemma generator_facts:
  assumes "s < SET_NUM" and "g < GEN_NUM" and "d < DTY_MAX"
  shows "\<exists>G l. generator have_eth e_ini t_out a m s g d = Some (Inr G) \<and>
           g_cyc G = CYC_MAX \<and> g_loc G = Some l \<and>
           g_ptr G = gen_org s g d +
             length (image (spkr_a (slot_state e_ini t_out (start have_eth a m) s g))
                      (of_nat (next_slot s g * GEN_MAX + (if d = 34 then 0 else GEN_END)))
                      (g_log G)) \<and>
           holds_but (g_mem G) (gen_org s g d)
             (image (spkr_a (slot_state e_ini t_out (start have_eth a m) s g))
                (of_nat (next_slot s g * GEN_MAX + (if d = 34 then 0 else GEN_END)))
                (g_log G)) l \<and>
           length (image (spkr_a (slot_state e_ini t_out (start have_eth a m) s g))
                     (of_nat (next_slot s g * GEN_MAX + (if d = 34 then 0 else GEN_END)))
                     (g_log G)) < GEN_MAX \<and>
           length (image (spkr_a (slot_state e_ini t_out (start have_eth a m) s g))
                     (of_nat (next_slot s g * GEN_MAX + (if d = 34 then 0 else GEN_END)))
                     (take (early d) (g_log G))) = GEN_END \<and>
           cost (spkr_a (slot_state e_ini t_out (start have_eth a m) s g))
             (take (early d) (g_log G)) = 8 \<and>
           cost (spkr_a (slot_state e_ini t_out (start have_eth a m) s g))
             (drop (early d) (g_log G)) = (if d = 34 then 38 else CYC_MAX) \<and>
           cost (spkr_a (slot_state e_ini t_out (start have_eth a m) s g)) (g_log G) =
             (if d = 34 then CYC_MAX else 54)"
proof -
  let ?st = "slot_state e_ini t_out (start have_eth a m) s g"
  let ?low = "of_nat (next_slot s g * GEN_MAX + (if d = 34 then 0 else GEN_END)) :: 8 word"
  have wf: "wf_tables have_eth ?st" by (rule wf_slot_state)
  from call_ok[OF wf assms]
  obtain G where G: "run_call ?st (dispatch ?st s g d) = Some (Inr G)"
    "g_cyc G = CYC_MAX" "gen_org s g d \<le> g_ptr G" "g_ptr G - gen_org s g d < GEN_MAX"
    by blast
  from call_img[OF G(1)] obtain l where l: "g_loc G = Some l"
    "g_ptr G = gen_org s g d + length (image (spkr_a ?st) ?low (g_log G))"
    "holds_but (g_mem G) (gen_org s g d) (image (spkr_a ?st) ?low (g_log G)) l"
    by blast
  from l(2) G(4) have len: "length (image (spkr_a ?st) ?low (g_log G)) < GEN_MAX" by simp
  from call_cost[OF wf G(1), of ?low]
  have c: "length (image (spkr_a ?st) ?low (take (early d) (g_log G))) = GEN_END"
    "cost (spkr_a ?st) (take (early d) (g_log G)) = 8"
    "cost (spkr_a ?st) (drop (early d) (g_log G)) = (if d = 34 then 38 else CYC_MAX)"
    by simp_all
  have "cost (spkr_a ?st) (g_log G) = (if d = 34 then CYC_MAX else 54)"
    using cost_take_drop[of "spkr_a ?st" "g_log G" "early d"] c(2,3)
    by (simp add: CYC_MAX_def)
  with G(1,2) l len c show ?thesis
    unfolding generator_def Let_def by blast
qed

section \<open>Lemmas on gen_player\<close>

lemma fix_slot_aux: "fix_slot e (st\<lparr>aux := a\<rparr>) s g = (fix_slot e st s g)\<lparr>aux := a\<rparr>"
  by (simp add: fix_slot_def Let_def)

lemma fold_fix_slot_aux:
  "fold (\<lambda>g st'. fix_slot e st' s g) gs (st\<lparr>aux := a\<rparr>) =
   (fold (\<lambda>g st'. fix_slot e st' s g) gs st)\<lparr>aux := a\<rparr>"
  by (induction gs arbitrary: st) (simp_all add: fix_slot_aux)

lemma fold_fold_fix_slot_aux:
  "fold (\<lambda>s st'. fold (\<lambda>g st''. fix_slot e st'' s g) gs st') ss (st\<lparr>aux := a\<rparr>) =
   (fold (\<lambda>s st'. fold (\<lambda>g st''. fix_slot e st'' s g) gs st') ss st)\<lparr>aux := a\<rparr>"
  by (induction ss arbitrary: st) (simp_all add: fold_fix_slot_aux)

lemma wf_fold_g:
  "wf_tables have_eth st \<Longrightarrow> wf_tables have_eth (fold (\<lambda>g st'. fix_slot e st' s g) gs st)"
  by (induction gs arbitrary: st) (simp_all add: wf_fix_slot)

lemma gen_duties_ok:
  assumes "wf_tables have_eth st" and "s < SET_NUM" and "g < GEN_NUM"
    and "\<forall>d \<in> set ds. d < DTY_MAX"
  shows "\<exists>a'. gen_duties st s g ds = Some (Inr (st\<lparr>aux := a'\<rparr>))"
  using assms(1,4)
proof (induction ds arbitrary: st)
  case Nil
  have "st = st\<lparr>aux := aux st\<rparr>" by simp
  then show ?case by (metis gen_duties.simps(1))
next
  case (Cons d ds)
  then have "d < DTY_MAX" by simp
  from call_ok[OF Cons.prems(1) assms(2,3) this]
  obtain G where G: "run_call st (dispatch st s g d) = Some (Inr G)" by blast
  have "wf_tables have_eth (st\<lparr>aux := g_mem G\<rparr>)" using Cons.prems(1) by simp
  from Cons.IH[OF this] Cons.prems(2)
  obtain a' where "gen_duties (st\<lparr>aux := g_mem G\<rparr>) s g ds = Some (Inr (st\<lparr>aux := g_mem G, aux := a'\<rparr>))"
    by auto
  with G show ?case by auto
qed

lemma gen_slots_ok:
  assumes "wf_tables have_eth st" and "s < SET_NUM" and "\<forall>g \<in> set gs. g < GEN_NUM"
  shows "\<exists>a'. gen_slots e st s gs =
           Some (Inr ((fold (\<lambda>g st'. fix_slot e st' s g) gs st)\<lparr>aux := a'\<rparr>))"
  using assms(1,3)
proof (induction gs arbitrary: st)
  case Nil
  have "st = st\<lparr>aux := aux st\<rparr>" by simp
  then show ?case by (metis gen_slots.simps(1) fold_simps(1))
next
  case (Cons g gs)
  let ?st1 = "fix_slot e st s g"
  have w1: "wf_tables have_eth ?st1" using Cons.prems(1) by (rule wf_fix_slot)
  have "g < GEN_NUM" using Cons.prems(2) by simp
  from gen_duties_ok[OF w1 assms(2) this, of "[0..<DTY_MAX]"]
  obtain a1 where d: "gen_duties ?st1 s g [0..<DTY_MAX] = Some (Inr (?st1\<lparr>aux := a1\<rparr>))"
    by auto
  have "wf_tables have_eth (?st1\<lparr>aux := a1\<rparr>)" using w1 by simp
  from Cons.IH[OF this] Cons.prems(2)
  obtain a' where "gen_slots e (?st1\<lparr>aux := a1\<rparr>) s gs =
      Some (Inr ((fold (\<lambda>g st'. fix_slot e st' s g) gs (?st1\<lparr>aux := a1\<rparr>))\<lparr>aux := a'\<rparr>))"
    by auto
  with d show ?case by (auto simp: fold_fix_slot_aux)
qed

lemma gen_sets_ok:
  assumes "wf_tables have_eth st" and "\<forall>s \<in> set ss. s < SET_NUM"
  shows "\<exists>a'. gen_sets e st ss =
           Some (Inr ((fold (\<lambda>s st'. fold (\<lambda>g st''. fix_slot e st'' s g) [0..<GEN_NUM] st') ss st)
                        \<lparr>aux := a'\<rparr>))"
  using assms
proof (induction ss arbitrary: st)
  case Nil
  have "st = st\<lparr>aux := aux st\<rparr>" by simp
  then show ?case by (metis gen_sets.simps(1) fold_simps(1))
next
  case (Cons s ss)
  let ?st1 = "fold (\<lambda>g st'. fix_slot e st' s g) [0..<GEN_NUM] st"
  have w1: "wf_tables have_eth ?st1" using Cons.prems(1) by (rule wf_fold_g)
  have "s < SET_NUM" using Cons.prems(2) by simp
  from gen_slots_ok[OF Cons.prems(1) this, of "[0..<GEN_NUM]" e]
  obtain a1 where d: "gen_slots e st s [0..<GEN_NUM] = Some (Inr (?st1\<lparr>aux := a1\<rparr>))"
    by auto
  have "wf_tables have_eth (?st1\<lparr>aux := a1\<rparr>)" using w1 by simp
  from Cons.IH[OF this] Cons.prems(2)
  obtain a' where "gen_sets e (?st1\<lparr>aux := a1\<rparr>) ss =
      Some (Inr ((fold (\<lambda>s st'. fold (\<lambda>g st''. fix_slot e st'' s g) [0..<GEN_NUM] st') ss
                    (?st1\<lparr>aux := a1\<rparr>))\<lparr>aux := a'\<rparr>))"
    by auto
  with d show ?case by (auto simp: fold_fold_fix_slot_aux)
qed

lemma gen_player_ok:
  "\<exists>a'. gen_player e_ini t_out (start have_eth a m) =
     Some (Inr ((fix_all (push_bit 4 e_ini) (prepare t_out (start have_eth a m)))\<lparr>aux := a'\<rparr>))"
  unfolding gen_player_def fix_all_def
  by (rule gen_sets_ok[OF wf_prepare[OF wf_start]]) simp

lemma upt_5: "[0..<GEN_NUM] = [0, 1, 2, 3, 4]" and upt_2: "[0..<SET_NUM] = [0, 1]"
  by (simp_all add: GEN_NUM_def SET_NUM_def upt_rec)

lemma fix_all_tasks:
  "tasks (fix_all e (prepare t_out (start have_eth a m))) t = fix_eth (task_table have_eth t) e"
  by (cases t) (simp_all add: fix_all_def upt_5 upt_2 fix_slot_def flow_def prepare_def start_def Let_def)

lemma fix_all_spkr:
  "spkr_a (fix_all e (prepare t_out (start have_eth a m))) =
     (if t_out then spkr_a0\<lparr>opc := (opc spkr_a0)[1 := 0x20]\<rparr> else spkr_a0)"
  by (simp add: fix_all_def upt_5 upt_2 fix_slot_def flow_def prepare_def start_def Let_def)

lemma fix_eth_frozen: "map frozen (fix_eth tsk e) = map frozen tsk"
  by (induction tsk) (simp_all add: frozen_def drop_update_cancel)

lemma fix_slot_frozen:
  "map frozen (tasks (fix_slot e st s g) t) = map frozen (tasks st t) \<and>
   spkr_a (fix_slot e st s g) = spkr_a st"
  by (simp add: fix_slot_def Let_def fix_eth_frozen)

lemma fold_fix_slot_frozen:
  "map frozen (tasks (fold (\<lambda>(s', g') st'. fix_slot e st' s' g') xs st) t) =
     map frozen (tasks st t) \<and>
   spkr_a (fold (\<lambda>(s', g') st'. fix_slot e st' s' g') xs st) = spkr_a st"
  by (induction xs arbitrary: st) (simp_all add: fix_slot_frozen split: prod.splits)

lemma slot_state_frozen:
  "map frozen (tasks (slot_state e_ini t_out (start have_eth a m) s g) t) =
     map frozen (task_table have_eth t) \<and>
   frozen (spkr_a (slot_state e_ini t_out (start have_eth a m) s g)) = frozen spkr_a0"
  by (simp add: slot_state_def fix_slot_frozen fold_fix_slot_frozen prepare_def start_def
      Let_def frozen_def spkr_a0_def STA_A_def)


text \<open>
  When the generators of a slot are made, the task array of the slot is the array of
  the source with the slot offset in its Ethernet descriptors.
\<close>

lemma slot_tasks:
  assumes "s < SET_NUM" and "g < GEN_NUM"
  shows "tasks (slot_state e_ini t_out (start have_eth a m) s g) (ins (flow ! s ! g)) =
           fix_eth (task_table have_eth (ins (flow ! s ! g))) (push_bit 4 e_ini)"
proof -
  from assms have "(s = 0 \<or> s = 1) \<and> (g = 0 \<or> g = 1 \<or> g = 2 \<or> g = 3 \<or> g = 4)"
    unfolding SET_NUM_def GEN_NUM_def by arith
  then show ?thesis
    by (elim conjE disjE)
      (simp_all add: slot_state_def slots_before_def upt_5 upt_rec[of 0 "Suc 0"] upt_rec[of 0 "Suc 1"]
        upt_rec[of 1 "Suc 1"] fix_slot_def flow_def prepare_def start_def Let_def)
qed

section \<open>Lemmas on the flow graph\<close>

lemmas next_slot = next_slot_def flow_def eval_nat_numeral

lemma slot_cases: "g < GEN_NUM \<Longrightarrow> g = 0 \<or> g = 1 \<or> g = 2 \<or> g = 3 \<or> g = 4"
  unfolding GEN_NUM_def by arith

lemma walk_3: "g < GEN_NUM \<Longrightarrow> walk 0 g 3 \<in> {1, 2} \<and> walk 1 g 3 \<in> {0, 4}"
  using slot_cases[of g] by (auto simp: next_slot)

lemma walk_0_stays: "walk 0 1 k \<in> {1, 2}"
  by (induction k) (auto simp: next_slot)

text \<open>
  The jump of a generator of slot \<open>(s, g)\<close>, with the high byte of a page of page set
  \<open>s'\<close>, lands in that page at the slot \<open>next_slot s g\<close>: behind the duty end for
  generator 34 (\<open>k = GEN_END\<close>), or on it when the jump is that of a generator 34
  (\<open>k = 0\<close>).
\<close>

lemma jump_lands:
  assumes "s < SET_NUM" and "g < GEN_NUM" and "s' < SET_NUM" and "d' < DTY_MAX"
    and "k \<le> GEN_END"
  shows "256 * unat (HI (gen_org s' 0 d')) + unat (of_nat (next_slot s g * GEN_MAX + k) :: 8 word) =
           gen_org s' (next_slot s g) d' + k"
proof -
  from assms(1) have "s = 0 \<or> s = 1" unfolding SET_NUM_def by arith
  then have n: "next_slot s g < 5"
    using slot_cases[OF assms(2)] by (auto simp: next_slot)
  have "gen_org s' 0 d' mod 65536 div 256 mod 256 = 64 + s' * 36 + d'"
    using assms(3,4) unfolding SET_NUM_def DTY_MAX_def gen_org_def PLAY_BUF_def GEN_MAX_def
    by simp
  moreover have "unat (HI (gen_org s' 0 d')) = gen_org s' 0 d' mod 65536 div 256 mod 256"
    unfolding HI_def unat_of_nat by simp
  ultimately have "unat (HI (gen_org s' 0 d')) = 64 + s' * 36 + d'"
    by simp
  moreover have "unat (of_nat (next_slot s g * GEN_MAX + k) :: 8 word) =
      (next_slot s g * GEN_MAX + k) mod 256"
    unfolding unat_of_nat by simp
  then have "unat (of_nat (next_slot s g * GEN_MAX + k) :: 8 word) = next_slot s g * 43 + k"
    using n assms(5) by (simp add: GEN_MAX_def GEN_END_def)
  ultimately show ?thesis
    by (simp add: gen_org_def PLAY_BUF_def DTY_MAX_def GEN_MAX_def)
qed

text \<open>
  So \<open>cross\<close> is where the jump of a generator lands when its high byte is that of a
  page of the other page set.
\<close>

lemma cross_lands:
  assumes "s < SET_NUM" and "g < GEN_NUM" and "d' < DTY_MAX" and "k \<le> GEN_END"
  shows "256 * unat (HI (gen_org (fst (cross s g)) 0 d')) +
           unat (of_nat (next_slot s g * GEN_MAX + k) :: 8 word) =
         gen_org (fst (cross s g)) (snd (cross s g)) d' + k"
proof -
  have "1 - s < SET_NUM" by (simp add: SET_NUM_def)
  from jump_lands[OF assms(1,2) this assms(3,4)] show ?thesis
    by (simp add: cross_def)
qed

section \<open>The generators of gen_player\<close>

text \<open>
  C1, as stated, fails: the instructions emitted for a generator of the general path
  cost 54 cycles, not \<open>CYC_MAX\<close>; the duty end for generator 34 at its beginning is
  emitted and not counted.
\<close>

theorem emitted_cost_of_general_path:
  "\<exists>G. generator True 0 False (\<lambda>_. 0) (\<lambda>_. 0) 0 0 0 = Some (Inr G) \<and>
        cost (spkr_a (slot_state 0 False (start True (\<lambda>_. 0) (\<lambda>_. 0)) 0 0)) (g_log G) = 54 \<and>
        CYC_MAX = 46"
proof -
  have "(0::nat) < SET_NUM" "(0::nat) < GEN_NUM" "(0::nat) < DTY_MAX"
    by (simp_all add: SET_NUM_def GEN_NUM_def DTY_MAX_def)
  from generator_facts[OF this, of True 0 False "\<lambda>_. 0" "\<lambda>_. 0"] show ?thesis
    by (auto simp: CYC_MAX_def)
qed

text \<open>
  C1, amended. Each of the 2 * 5 * 36 generators is made without a failed assertion, for
  every build, slot offset and output. Its memory, from its origin to the low byte of
  the jump, holds the bytes of its placements, fewer than \<open>GEN_MAX\<close>. It begins with
  the duty end for generator 34, \<open>GEN_END\<close> bytes that cost 8 cycles. In a generator of
  \<open>gen_pulse\<close> the instructions behind it cost exactly \<open>CYC_MAX\<close> cycles, which is what
  the counter counts, and all that is emitted costs 54; in a generator of
  \<open>gen_pulse_34\<close> all that is emitted costs \<open>CYC_MAX\<close>, the counter again, and the
  instructions behind the duty end cost 38.
\<close>

theorem generator_budget:
  assumes "s < SET_NUM" and "g < GEN_NUM" and "d < DTY_MAX"
  shows "\<exists>G l. generator have_eth e_ini t_out a m s g d = Some (Inr G) \<and>
           g_cyc G = CYC_MAX \<and> g_loc G = Some l \<and>
           g_ptr G = gen_org s g d +
             length (image (spkr_a (slot_state e_ini t_out (start have_eth a m) s g))
                      (of_nat (next_slot s g * GEN_MAX + (if d = 34 then 0 else GEN_END)))
                      (g_log G)) \<and>
           holds_but (g_mem G) (gen_org s g d)
             (image (spkr_a (slot_state e_ini t_out (start have_eth a m) s g))
                (of_nat (next_slot s g * GEN_MAX + (if d = 34 then 0 else GEN_END)))
                (g_log G)) l \<and>
           length (image (spkr_a (slot_state e_ini t_out (start have_eth a m) s g))
                     (of_nat (next_slot s g * GEN_MAX + (if d = 34 then 0 else GEN_END)))
                     (g_log G)) < GEN_MAX \<and>
           length (image (spkr_a (slot_state e_ini t_out (start have_eth a m) s g))
                     (of_nat (next_slot s g * GEN_MAX + (if d = 34 then 0 else GEN_END)))
                     (take (early d) (g_log G))) = GEN_END \<and>
           cost (spkr_a (slot_state e_ini t_out (start have_eth a m) s g))
             (take (early d) (g_log G)) = 8 \<and>
           cost (spkr_a (slot_state e_ini t_out (start have_eth a m) s g))
             (drop (early d) (g_log G)) = (if d = 34 then 38 else CYC_MAX) \<and>
           cost (spkr_a (slot_state e_ini t_out (start have_eth a m) s g)) (g_log G) =
             (if d = 34 then CYC_MAX else 54)"
  using generator_facts[OF assms] .

theorem generator_budget_witness:
  "(1::nat) < SET_NUM \<and> (4::nat) < GEN_NUM \<and> (34::nat) < DTY_MAX \<and>
   (\<exists>G l. generator True 3 True (\<lambda>_. 0) (\<lambda>_. 0) 1 4 34 = Some (Inr G) \<and>
           g_cyc G = CYC_MAX \<and> g_loc G = Some l \<and>
           g_ptr G = gen_org 1 4 34 +
             length (image (spkr_a (slot_state 3 True (start True (\<lambda>_. 0) (\<lambda>_. 0)) 1 4))
                      (of_nat (next_slot 1 4 * GEN_MAX)) (g_log G)) \<and>
           holds_but (g_mem G) (gen_org 1 4 34)
             (image (spkr_a (slot_state 3 True (start True (\<lambda>_. 0) (\<lambda>_. 0)) 1 4))
                (of_nat (next_slot 1 4 * GEN_MAX)) (g_log G)) l \<and>
           length (image (spkr_a (slot_state 3 True (start True (\<lambda>_. 0) (\<lambda>_. 0)) 1 4))
                     (of_nat (next_slot 1 4 * GEN_MAX)) (g_log G)) < GEN_MAX \<and>
           length (image (spkr_a (slot_state 3 True (start True (\<lambda>_. 0) (\<lambda>_. 0)) 1 4))
                     (of_nat (next_slot 1 4 * GEN_MAX)) (take (early 34) (g_log G))) = GEN_END \<and>
           cost (spkr_a (slot_state 3 True (start True (\<lambda>_. 0) (\<lambda>_. 0)) 1 4))
             (take (early 34) (g_log G)) = 8 \<and>
           cost (spkr_a (slot_state 3 True (start True (\<lambda>_. 0) (\<lambda>_. 0)) 1 4))
             (drop (early 34) (g_log G)) = 38 \<and>
           cost (spkr_a (slot_state 3 True (start True (\<lambda>_. 0) (\<lambda>_. 0)) 1 4)) (g_log G) =
             CYC_MAX)"
  using generator_budget[of 1 4 34 True 3 True "\<lambda>_. 0" "\<lambda>_. 0"]
  by (simp add: SET_NUM_def GEN_NUM_def DTY_MAX_def)

text \<open>
  C5. In every generator of the general path the task instructions placed are the
  instructions of the task array, each once and in the order of the array, and one pull
  and one store are placed, whatever the duty value. The placements are what the
  generator consists of: its memory, from its origin to the end of the jump's low byte,
  holds their bytes one placement after the other (the operand of the store holds the
  address patched in at the end).
\<close>

theorem general_path_places_task:
  assumes "s < SET_NUM" and "g < GEN_NUM" and "d < DTY_MAX" and "d \<noteq> 34"
  shows "\<exists>G l. generator have_eth e_ini t_out a m s g d = Some (Inr G) \<and>
           works (g_log G) =
             instructions (tasks (slot_state e_ini t_out (start have_eth a m) s g)
                            (ins (flow ! s ! g))) \<and>
           count_list (g_log G) Pull_sample = 1 \<and>
           count_list (g_log G) Store_sample = 1 \<and>
           g_loc G = Some l \<and>
           g_ptr G = gen_org s g d +
             length (image (spkr_a (slot_state e_ini t_out (start have_eth a m) s g))
                       (of_nat (next_slot s g * GEN_MAX + GEN_END)) (g_log G)) \<and>
           holds_but (g_mem G) (gen_org s g d)
             (image (spkr_a (slot_state e_ini t_out (start have_eth a m) s g))
                (of_nat (next_slot s g * GEN_MAX + GEN_END)) (g_log G)) l"
proof -
  let ?st = "slot_state e_ini t_out (start have_eth a m) s g"
  let ?low = "of_nat (next_slot s g * GEN_MAX + GEN_END) :: 8 word"
  from call_ok[OF wf_slot_state[of have_eth e_ini t_out a m s g] assms(1-3)] assms(4)
  obtain G where G: "run_call ?st (dispatch ?st s g d) = Some (Inr G)"
    "works (g_log G) = instructions (tasks ?st (ins (flow ! s ! g)))"
    "count_list (g_log G) Pull_sample = 1" "count_list (g_log G) Store_sample = 1"
    by blast
  have "run_call ?st (dispatch ?st s g d) =
      gen_pulse (spkr_a ?st) (aux ?st) (gen_org s g d) (tasks ?st (ins (flow ! s ! g))) d ?low"
    using assms(4) by (simp add: dispatch_def Let_def gen_org_def next_slot_def)
  with G(1) gen_pulse_img[of "spkr_a ?st" "aux ?st" "gen_org s g d" _ d ?low G]
  obtain l where "g_loc G = Some l"
    "g_ptr G = gen_org s g d + length (image (spkr_a ?st) ?low (g_log G))"
    "holds_but (g_mem G) (gen_org s g d) (image (spkr_a ?st) ?low (g_log G)) l"
    by auto
  with G show ?thesis unfolding generator_def Let_def by blast
qed

theorem general_path_places_task_witness:
  "(0::nat) < SET_NUM \<and> (2::nat) < GEN_NUM \<and> (1::nat) < DTY_MAX \<and> (1::nat) \<noteq> 34 \<and>
   (\<exists>G l. generator True 1 False (\<lambda>_. 0) (\<lambda>_. 0) 0 2 1 = Some (Inr G) \<and>
        works (g_log G) =
          instructions (tasks (slot_state 1 False (start True (\<lambda>_. 0) (\<lambda>_. 0)) 0 2)
                         (ins (flow ! 0 ! 2))) \<and>
        count_list (g_log G) Pull_sample = 1 \<and>
        count_list (g_log G) Store_sample = 1 \<and>
        g_loc G = Some l \<and>
        g_ptr G = gen_org 0 2 1 +
          length (image (spkr_a (slot_state 1 False (start True (\<lambda>_. 0) (\<lambda>_. 0)) 0 2))
                    (of_nat (next_slot 0 2 * GEN_MAX + GEN_END)) (g_log G)) \<and>
        holds_but (g_mem G) (gen_org 0 2 1)
          (image (spkr_a (slot_state 1 False (start True (\<lambda>_. 0) (\<lambda>_. 0)) 0 2))
             (of_nat (next_slot 0 2 * GEN_MAX + GEN_END)) (g_log G)) l)"
  using general_path_places_task[of 0 2 1 True 1 False "\<lambda>_. 0" "\<lambda>_. 0"]
  by (simp add: SET_NUM_def GEN_NUM_def DTY_MAX_def)

text \<open>
  C6. In every generator the saved location is the operand of a store (the byte below
  it is the opcode of \<open>stx\<close>), and what it holds in the end is the address that
  follows the opcode and the low byte of the terminal jump: the cell of the high byte.
\<close>

theorem store_operand_is_jump_high_byte:
  assumes "s < SET_NUM" and "g < GEN_NUM" and "d < DTY_MAX"
  shows "\<exists>G l. generator have_eth e_ini t_out a m s g d = Some (Inr G) \<and>
           g_loc G = Some l \<and> g_mem G (l - 1) = opc stx ! 0 \<and>
           read16 (g_mem G) l = g_ptr G \<and> l + 4 \<le> g_ptr G \<and>
           g_mem G (g_ptr G - 2) = opc jmp ! 0 \<and>
           g_mem G (g_ptr G - 1) =
             of_nat (next_slot s g * GEN_MAX + (if d = 34 then 0 else GEN_END))"
proof -
  from call_ok[OF wf_slot_state[of have_eth e_ini t_out a m s g] assms]
  show ?thesis unfolding generator_def Let_def by (simp only: opc_stx) blast
qed

theorem store_operand_is_jump_high_byte_witness:
  "(1::nat) < SET_NUM \<and> (0::nat) < GEN_NUM \<and> (17::nat) < DTY_MAX \<and>
   (\<exists>G l. generator False 0 False (\<lambda>_. 0) (\<lambda>_. 0) 1 0 17 = Some (Inr G) \<and>
        g_loc G = Some l \<and> g_mem G (l - 1) = opc stx ! 0 \<and>
        read16 (g_mem G) l = g_ptr G \<and> l + 4 \<le> g_ptr G \<and>
        g_mem G (g_ptr G - 2) = opc jmp ! 0 \<and>
        g_mem G (g_ptr G - 1) =
          of_nat (next_slot 1 0 * GEN_MAX + (if (17::nat) = 34 then 0 else GEN_END)))"
  using store_operand_is_jump_high_byte[of 1 0 17 False 0 False "\<lambda>_. 0" "\<lambda>_. 0"]
  by (simp add: SET_NUM_def GEN_NUM_def DTY_MAX_def)

section \<open>The descriptors\<close>

lemma prolog_1_fixed:
  "fix_eth prolog_1 0x10 ! 3 = (STA_E HIGH)\<lparr>opc := [0x8D, 0x95, 0xC0, 0, 0]\<rparr>"
  by (simp add: prolog_1_def macro_defs HIGH_def LEAVE_def LOW_def)

text \<open>
  C8, as stated, fails: with the slot offset 1 the run of \<open>gen_player\<close> leaves the task
  array \<open>prolog_1\<close> with the second opcode byte of its fourth descriptor changed from
  0x85 to 0x95.
\<close>

theorem fix_eth_rewrites_descriptor:
  "tasks_after (gen_player 1 False (start True (\<lambda>_. 0) (\<lambda>_. 0))) Prolog_1 =
     Some (fix_eth prolog_1 0x10) \<and>
   opc (fix_eth prolog_1 0x10 ! 3) ! 1 = 0x95 \<and> opc (prolog_1 ! 3) ! 1 = 0x85"
proof -
  obtain a' where "gen_player 1 False (start True (\<lambda>_. 0) (\<lambda>_. 0)) =
     Some (Inr ((fix_all (push_bit 4 1) (prepare False (start True (\<lambda>_. 0) (\<lambda>_. 0))))\<lparr>aux := a'\<rparr>))"
    using gen_player_ok by blast
  then have "tasks_after (gen_player 1 False (start True (\<lambda>_. 0) (\<lambda>_. 0))) Prolog_1 =
     Some (fix_eth prolog_1 0x10)"
    by (simp add: tasks_after_def fix_all_tasks)
  moreover have "opc (prolog_1 ! 3) ! 1 = 0x85"
    by (simp add: prolog_1_def macro_defs HIGH_def)
  ultimately show ?thesis by (simp add: prolog_1_fixed)
qed

text \<open>
  C8, amended. A run of \<open>gen_player\<close> returns, and it leaves every task array as
  \<open>fix_eth\<close> has rewritten it (the slot offset ORed into the second opcode byte of
  the descriptors with the Ethernet flag) and \<open>spkr_a\<close> with its second opcode byte set
  for tape output; of every descriptor the first opcode byte, the opcode bytes from the
  third on, the length, the cycles and the flag are as they were, at the end and in
  every state in which the generators of a slot are made.
\<close>

theorem descriptors_after_gen_player:
  "\<exists>st'. gen_player e_ini t_out (start have_eth a m) = Some (Inr st') \<and>
     (\<forall>t. tasks st' t = fix_eth (task_table have_eth t) (push_bit 4 e_ini)) \<and>
     spkr_a st' = (if t_out then spkr_a0\<lparr>opc := (opc spkr_a0)[1 := 0x20]\<rparr> else spkr_a0) \<and>
     (\<forall>t. map frozen (tasks st' t) = map frozen (task_table have_eth t)) \<and>
     frozen (spkr_a st') = frozen spkr_a0 \<and>
     (\<forall>s g t. map frozen (tasks (slot_state e_ini t_out (start have_eth a m) s g) t) =
        map frozen (task_table have_eth t)) \<and>
     (\<forall>s g. frozen (spkr_a (slot_state e_ini t_out (start have_eth a m) s g)) =
        frozen spkr_a0)"
proof -
  obtain a' where g: "gen_player e_ini t_out (start have_eth a m) =
     Some (Inr ((fix_all (push_bit 4 e_ini) (prepare t_out (start have_eth a m)))\<lparr>aux := a'\<rparr>))"
    using gen_player_ok by blast
  have "frozen (spkr_a0\<lparr>opc := (opc spkr_a0)[1 := 0x20]\<rparr>) = frozen spkr_a0"
    by (simp add: frozen_def spkr_a0_def STA_A_def)
  with g show ?thesis
    by (simp add: fix_all_tasks fix_all_spkr fix_eth_frozen slot_state_frozen)
qed

section \<open>The choice of the generator function\<close>

text \<open>
  C2, as stated, fails: for the duty value 1 the call of \<open>gen_player\<close> is a call of
  the general function \<open>gen_pulse\<close>.
\<close>

theorem duty_1_takes_the_general_path:
  "dispatch (start True (\<lambda>_. 0) (\<lambda>_. 0)) 0 0 1 = Gen_pulse (PLAY_BUF + 0x0100) prolog_1 1 134"
  by (simp add: dispatch_def start_def flow_def Let_def DTY_MAX_def GEN_MAX_def GEN_END_def)

text \<open>
  C2, amended. The dedicated function \<open>gen_pulse_34\<close> is called for the duty value 34
  and for no other; every other duty value, 1 included, is given to \<open>gen_pulse\<close>.
\<close>

theorem only_duty_34_is_dedicated:
  "((\<exists>p tsk low. dispatch st s g d = Gen_pulse_34 p tsk low) \<longleftrightarrow> d = 34) \<and>
   ((\<exists>p tsk low. dispatch st s g d = Gen_pulse p tsk d low) \<longleftrightarrow> d \<noteq> 34)"
  by (simp add: dispatch_def Let_def)

text \<open>
  What the duty value 1 gets instead of a function of its own: in \<open>gen_pulse\<close> the
  stretched duty end, the 5-cycle speaker access through the pointer, follows the duty
  start at once.
\<close>

lemma duty_1_is_stretched:
  assumes "s < SET_NUM" and "g < GEN_NUM"
  shows "\<exists>G. generator have_eth e_ini t_out a m s g 1 = Some (Inr G) \<and>
           take 3 (g_log G) = [Early_end, Duty_start, Duty_end_stretched]"
proof -
  let ?st = "slot_state e_ini t_out (start have_eth a m) s g"
  have wf: "wf_tables have_eth ?st" by (rule wf_slot_state)
  have "(1::nat) < DTY_MAX" by (simp add: DTY_MAX_def)
  from call_ok[OF wf assms this]
  obtain G where G: "run_call ?st (dispatch ?st s g 1) = Some (Inr G)" by blast
  then have "gen_pulse (spkr_a ?st) (aux ?st) (gen_org s g 1) (tasks ?st (ins (flow ! s ! g))) 1
      (of_nat (next_slot s g * GEN_MAX + GEN_END)) = Some (Inr G)"
    by (simp add: dispatch_def Let_def gen_org_def next_slot_def)
  from duty_1_stretched[OF this] wf
  have "take 3 (g_log G) = [Early_end, Duty_start, Duty_end_stretched]"
    by (simp add: wf_tables_def)
  with G show ?thesis unfolding generator_def Let_def by blast
qed

section \<open>The flow graph\<close>

text \<open>
  C3, as stated, fails: from slot 1 of page set 0 the next slots never lead to slot 0 of
  the page set.
\<close>

theorem slot_0_is_not_revisited: "\<not> (\<exists>k. walk 0 1 k = 0)"
proof
  assume "\<exists>k. walk 0 1 k = 0"
  then obtain k where "walk 0 1 k = 0" ..
  with walk_0_stays[of k] show False by simp
qed

text \<open>
  C3, amended. From every node, three steps along the next slots lead into a cycle of
  length two, slots 1 and 2 in page set 0 and slots 0 and 4 in page set 1, which is
  never left; the other three nodes of a page set are a chain into the cycle
  (0, 3, 4, 2 in page set 0 and 1, 2, 3, 0 in page set 1). Every next slot is a slot of
  the table. No edge of the table crosses or stays by itself: the low byte of a node's
  jump is that of its next slot, and with the high byte of a page of either page set
  the jump lands in that page set, at the next slot.
\<close>

theorem flow_walk:
  assumes "g < GEN_NUM" and "3 \<le> k" and "s' < SET_NUM" and "d' < DTY_MAX"
  shows "walk 0 g k \<in> {1, 2} \<and> walk 1 g k \<in> {0, 4} \<and>
         walk 0 g (k + 1) \<noteq> walk 0 g k \<and> walk 1 g (k + 1) \<noteq> walk 1 g k \<and>
         walk 0 g (k + 2) = walk 0 g k \<and> walk 1 g (k + 2) = walk 1 g k \<and>
         walk 0 0 1 = 3 \<and> walk 0 0 2 = 4 \<and> walk 0 0 3 = 2 \<and>
         walk 1 1 1 = 2 \<and> walk 1 1 2 = 3 \<and> walk 1 1 3 = 0 \<and>
         next_slot 0 g < GEN_NUM \<and> next_slot 1 g < GEN_NUM \<and>
         256 * unat (HI (gen_org s' 0 d')) +
             unat (of_nat (next_slot 0 g * GEN_MAX + GEN_END) :: 8 word) =
           gen_org s' (next_slot 0 g) d' + GEN_END \<and>
         256 * unat (HI (gen_org s' 0 d')) +
             unat (of_nat (next_slot 1 g * GEN_MAX + GEN_END) :: 8 word) =
           gen_org s' (next_slot 1 g) d' + GEN_END"
proof -
  have in_cycle: "walk 0 g k \<in> {1, 2} \<and> walk 1 g k \<in> {0, 4}"
    using assms(2)
  proof (induction k rule: dec_induct)
    case base
    show ?case using walk_3[OF assms(1)] .
  next
    case (step n)
    then show ?case by (auto simp: next_slot)
  qed
  then have "walk 0 g (k + 1) \<noteq> walk 0 g k" "walk 1 g (k + 1) \<noteq> walk 1 g k"
    "walk 0 g (k + 2) = walk 0 g k" "walk 1 g (k + 2) = walk 1 g k"
    by (auto simp: next_slot)
  moreover have "walk 0 0 1 = 3 \<and> walk 0 0 2 = 4 \<and> walk 0 0 3 = 2 \<and>
         walk 1 1 1 = 2 \<and> walk 1 1 2 = 3 \<and> walk 1 1 3 = 0"
    by (simp add: next_slot)
  moreover have "next_slot 0 g < GEN_NUM \<and> next_slot 1 g < GEN_NUM"
    using slot_cases[OF assms(1)] by (auto simp: next_slot GEN_NUM_def)
  moreover have "256 * unat (HI (gen_org s' 0 d')) +
             unat (of_nat (next_slot 0 g * GEN_MAX + GEN_END) :: 8 word) =
           gen_org s' (next_slot 0 g) d' + GEN_END"
    by (rule jump_lands[OF _ assms(1,3,4)]) (simp_all add: SET_NUM_def)
  moreover have "256 * unat (HI (gen_org s' 0 d')) +
             unat (of_nat (next_slot 1 g * GEN_MAX + GEN_END) :: 8 word) =
           gen_org s' (next_slot 1 g) d' + GEN_END"
    by (rule jump_lands[OF _ assms(1,3,4)]) (simp_all add: SET_NUM_def)
  ultimately show ?thesis using in_cycle by simp
qed

theorem flow_walk_witness:
  "(0::nat) < GEN_NUM \<and> (3::nat) \<le> 7 \<and> (1::nat) < SET_NUM \<and> (5::nat) < DTY_MAX \<and>
   walk 0 0 7 \<in> {1, 2} \<and> walk 1 0 7 \<in> {0, 4} \<and>
   walk 0 0 (7 + 1) \<noteq> walk 0 0 7 \<and> walk 1 0 (7 + 1) \<noteq> walk 1 0 7 \<and>
   walk 0 0 (7 + 2) = walk 0 0 7 \<and> walk 1 0 (7 + 2) = walk 1 0 7 \<and>
   walk 0 0 1 = 3 \<and> walk 0 0 2 = 4 \<and> walk 0 0 3 = 2 \<and>
   walk 1 1 1 = 2 \<and> walk 1 1 2 = 3 \<and> walk 1 1 3 = 0 \<and>
   next_slot 0 0 < GEN_NUM \<and> next_slot 1 0 < GEN_NUM \<and>
   256 * unat (HI (gen_org 1 0 5)) +
       unat (of_nat (next_slot 0 0 * GEN_MAX + GEN_END) :: 8 word) =
     gen_org 1 (next_slot 0 0) 5 + GEN_END \<and>
   256 * unat (HI (gen_org 1 0 5)) +
       unat (of_nat (next_slot 1 0 * GEN_MAX + GEN_END) :: 8 word) =
     gen_org 1 (next_slot 1 0) 5 + GEN_END"
  using flow_walk[of 0 7 1 5]
  by (simp add: GEN_NUM_def SET_NUM_def DTY_MAX_def next_slot_def flow_def)

text \<open>
  C7, as stated, fails: when the page set is switched, slot 3 of page set 0 is followed
  by slot 4 of page set 1, not by slot 0.
\<close>

theorem prolog_2_does_not_chain_to_slot_0: "cross 0 3 \<noteq> (1, 0)"
  by (simp add: cross_def next_slot)

text \<open>
  C7, amended. Slot 0 of page set 0 (\<open>prolog_1\<close>) follows slot 4 of page set 1
  (\<open>visual_2\<close>) when the page set is switched: with the high byte of a page of page
  set 0 the jump of \<open>visual_2\<close> lands in slot 0 of that page. Slot 0 of page set 1
  (\<open>visual_1\<close>) does not follow slot 3 of page set 0 (\<open>prolog_2\<close>) when the page set is
  switched: with the high byte of a page of page set 1 the jump of \<open>prolog_2\<close> lands in
  slot 4 of that page, and no slot of page set 0 is followed by slot 0 of page set 1.
\<close>

theorem crossings:
  assumes "d' < DTY_MAX" and "k \<le> GEN_END"
  shows "cross 1 4 = (0, 0) \<and> ins (flow ! 1 ! 4) = Visual_2 \<and> ins (flow ! 0 ! 0) = Prolog_1 \<and>
     256 * unat (HI (gen_org 0 0 d')) + unat (of_nat (next_slot 1 4 * GEN_MAX + k) :: 8 word) =
       gen_org 0 0 d' + k \<and>
     cross 0 3 = (1, 4) \<and> ins (flow ! 0 ! 3) = Prolog_2 \<and> ins (flow ! 1 ! 0) = Visual_1 \<and>
     256 * unat (HI (gen_org 1 0 d')) + unat (of_nat (next_slot 0 3 * GEN_MAX + k) :: 8 word) =
       gen_org 1 4 d' + k \<and>
     filter (\<lambda>g. cross 0 g = (1, 0)) [0..<GEN_NUM] = []"
proof -
  have "256 * unat (HI (gen_org 0 0 d')) + unat (of_nat (next_slot 1 4 * GEN_MAX + k) :: 8 word) =
       gen_org 0 (next_slot 1 4) d' + k"
    by (rule jump_lands[OF _ _ _ assms]) (simp_all add: SET_NUM_def GEN_NUM_def)
  moreover
  have "256 * unat (HI (gen_org 1 0 d')) + unat (of_nat (next_slot 0 3 * GEN_MAX + k) :: 8 word) =
       gen_org 1 (next_slot 0 3) d' + k"
    by (rule jump_lands[OF _ _ _ assms]) (simp_all add: SET_NUM_def GEN_NUM_def)
  moreover have "next_slot 1 4 = 0" "next_slot 0 3 = 4" by (simp_all add: next_slot)
  moreover have "cross 1 4 = (0, 0) \<and> ins (flow ! 1 ! 4) = Visual_2 \<and>
     ins (flow ! 0 ! 0) = Prolog_1 \<and> cross 0 3 = (1, 4) \<and> ins (flow ! 0 ! 3) = Prolog_2 \<and>
     ins (flow ! 1 ! 0) = Visual_1 \<and> filter (\<lambda>g. cross 0 g = (1, 0)) [0..<GEN_NUM] = []"
    by (simp add: cross_def next_slot GEN_NUM_def upt_rec)
  ultimately show ?thesis by simp
qed

theorem crossings_witness:
  "(7::nat) < DTY_MAX \<and> (5::nat) \<le> GEN_END \<and>
   cross 1 4 = (0, 0) \<and> ins (flow ! 1 ! 4) = Visual_2 \<and> ins (flow ! 0 ! 0) = Prolog_1 \<and>
   256 * unat (HI (gen_org 0 0 7)) + unat (of_nat (next_slot 1 4 * GEN_MAX + 5) :: 8 word) =
     gen_org 0 0 7 + 5 \<and>
   cross 0 3 = (1, 4) \<and> ins (flow ! 0 ! 3) = Prolog_2 \<and> ins (flow ! 1 ! 0) = Visual_1 \<and>
   256 * unat (HI (gen_org 1 0 7)) + unat (of_nat (next_slot 0 3 * GEN_MAX + 5) :: 8 word) =
     gen_org 1 4 7 + 5 \<and>
   filter (\<lambda>g. cross 0 g = (1, 0)) [0..<GEN_NUM] = []"
  using crossings[of 7 5]
  by (simp add: DTY_MAX_def GEN_END_def next_slot_def flow_def)

section \<open>The playback driver\<close>




text \<open>
  C10. In the state waiting a key other than the abort key leads to pausing, not to
  playing, whatever the buffer holds: the status text of the pause is shown and the
  image is not entered.
\<close>

theorem waiting_key_pauses:
  assumes "key p = Some k" and "k \<noteq> CH_ESC"
  shows "on_key waiting (key p) = Some pausing \<and>
         play_body have_eth waiting p = ([Mix_on, Cputsxy 35 22 ''Paus''], Some pausing)"
  using assms by (simp add: play_body_def on_key_def on_buffer_def act_def)

theorem waiting_key_pauses_witness:
  "key \<lparr>connected = True, key = Some 0x20, avail = 0x0300\<rparr> = Some 0x20 \<and>
   (0x20 :: 8 word) \<noteq> CH_ESC \<and>
   on_key waiting (key \<lparr>connected = True, key = Some 0x20, avail = 0x0300\<rparr>) = Some pausing \<and>
   play_body True waiting \<lparr>connected = True, key = Some 0x20, avail = 0x0300\<rparr> =
     ([Mix_on, Cputsxy 35 22 ''Paus''], Some pausing)"
  using waiting_key_pauses[of "\<lparr>connected = True, key = Some 0x20, avail = 0x0300\<rparr>" "0x20" True]
  by (simp add: CH_ESC_def)

section \<open>The handshake\<close>

text \<open>
  C9. A stream type other than the pair (0xA2, 0x01) is reported and the connection is
  given up: no page of the cover art is loaded and \<open>play\<close> does not run.
\<close>

theorem unknown_stream_type_abandons:
  assumes "(t0, t1) \<noteq> (0xA2, 0x01)"
  shows "accept_stream (Some (t0, t1)) h1 h2 =
           [Load_type, Report Unknown_stream_type, Disconnect, Next_url] \<and>
         Load_hires b \<notin> set (accept_stream (Some (t0, t1)) h1 h2) \<and>
         Play \<notin> set (accept_stream (Some (t0, t1)) h1 h2)"
  using assms by (auto simp: accept_stream_def abandon_def)

theorem unknown_stream_type_abandons_witness:
  "((0xA2, 0x02) :: 8 word \<times> 8 word) \<noteq> (0xA2, 0x01) \<and>
   accept_stream (Some (0xA2, 0x02)) True True =
     [Load_type, Report Unknown_stream_type, Disconnect, Next_url] \<and>
   Load_hires True \<notin> set (accept_stream (Some (0xA2, 0x02)) True True) \<and>
   Play \<notin> set (accept_stream (Some (0xA2, 0x02)) True True)"
  using unknown_stream_type_abandons[of "0xA2" "0x02" True True True]
  by simp

end
